theory Spec2Isabelle
  imports Complex_Main
begin

section \<open>JavaScript values\<close>

text \<open>
  The values that flow through \<^verbatim>\<open>json-element.js\<close>. Numbers are IEEE doubles in
  the source; the model keeps the mathematical value of a finite double and the three
  special values. Arrays and objects carry the address of the heap cell they live in,
  because \<^verbatim>\<open>===\<close> compares containers by reference. An object is the list of its
  own enumerable properties in the order \<^verbatim>\<open>Object.keys\<close> reports them. The last
  three constructors are the values a property read can find on the prototype chain of
  a plain object or array: a built-in function (named by the place it is found), and the
  two prototype objects themselves.
\<close>

datatype jsnum = NaN | PosInfinity | NegInfinity | Finite rat

type_synonym ref = nat

datatype jsval =
    Undefined
  | Null
  | Bool bool
  | Num jsnum
  | Str string
  | Arr ref "jsval list"
  | Obj ref "(string \<times> jsval) list"
  | Builtin string
  | ObjectPrototype
  | ArrayPrototype

datatype error = TypeError | RangeError | SyntaxError | InvalidSchema | Unmodelled

text \<open>The \<^verbatim>\<open>typeof\<close> operator.\<close>

fun typeof :: "jsval \<Rightarrow> string" where
  "typeof Undefined = ''undefined''"
| "typeof Null = ''object''"
| "typeof (Bool b) = ''boolean''"
| "typeof (Num n) = ''number''"
| "typeof (Str s) = ''string''"
| "typeof (Arr r xs) = ''object''"
| "typeof (Obj r kvs) = ''object''"
| "typeof (Builtin f) = ''function''"
| "typeof ObjectPrototype = ''object''"
| "typeof ArrayPrototype = ''object''"

text \<open>
  Strict equality \<^verbatim>\<open>===\<close>: by value on primitives (\<^verbatim>\<open>NaN\<close> differs from
  itself), by reference on everything else.
\<close>

fun strict_eq :: "jsval \<Rightarrow> jsval \<Rightarrow> bool" where
  "strict_eq Undefined b = (b = Undefined)"
| "strict_eq Null b = (b = Null)"
| "strict_eq (Bool x) b = (b = Bool x)"
| "strict_eq (Num x) b = (b = Num x \<and> x \<noteq> NaN)"
| "strict_eq (Str s) b = (b = Str s)"
| "strict_eq (Arr r xs) b = (case b of Arr r' ys \<Rightarrow> r = r' | _ \<Rightarrow> False)"
| "strict_eq (Obj r kvs) b = (case b of Obj r' kvs' \<Rightarrow> r = r' | _ \<Rightarrow> False)"
| "strict_eq (Builtin f) b = (b = Builtin f)"
| "strict_eq ObjectPrototype b = (b = ObjectPrototype)"
| "strict_eq ArrayPrototype b = (b = ArrayPrototype)"

text \<open>The string of a non-negative integer, as \<^verbatim>\<open>"" + i\<close> builds it.\<close>

definition digit_char :: "nat \<Rightarrow> char" where
  "digit_char d = ''0123456789'' ! d"

fun show_nat :: "nat \<Rightarrow> string" where
  "show_nat n = (if n < 10 then [digit_char n] else show_nat (n div 10) @ [digit_char (n mod 10)])"

declare show_nat.simps [simp del]

subsection \<open>Property reads\<close>

text \<open>
  The string-keyed members of \<^verbatim>\<open>Object.prototype\<close> and \<^verbatim>\<open>Array.prototype\<close>
  (ECMA-262, 2023 edition, with Annex B). None of them is enumerable.
\<close>

definition Object_prototype_names :: "string list" where
  "Object_prototype_names =
    [''constructor'', ''hasOwnProperty'', ''isPrototypeOf'', ''propertyIsEnumerable'',
     ''toLocaleString'', ''toString'', ''valueOf'', ''__defineGetter__'',
     ''__defineSetter__'', ''__lookupGetter__'', ''__lookupSetter__'']"

definition Array_prototype_names :: "string list" where
  "Array_prototype_names =
    [''at'', ''concat'', ''constructor'', ''copyWithin'', ''entries'', ''every'', ''fill'',
     ''filter'', ''find'', ''findIndex'', ''findLast'', ''findLastIndex'', ''flat'',
     ''flatMap'', ''forEach'', ''includes'', ''indexOf'', ''join'', ''keys'',
     ''lastIndexOf'', ''map'', ''pop'', ''push'', ''reduce'', ''reduceRight'', ''reverse'',
     ''shift'', ''slice'', ''some'', ''sort'', ''splice'', ''toLocaleString'',
     ''toReversed'', ''toSorted'', ''toSpliced'', ''toString'', ''unshift'', ''values'',
     ''with'']"

definition get_ObjectPrototype :: "string \<Rightarrow> jsval" where
  "get_ObjectPrototype prop =
    (if prop = ''__proto__'' then Null
     else if prop \<in> set Object_prototype_names then Builtin (''Object.prototype.'' @ prop)
     else Undefined)"

definition get_ArrayPrototype :: "string \<Rightarrow> jsval" where
  "get_ArrayPrototype prop =
    (if prop = ''length'' then Num (Finite 0)
     else if prop = ''__proto__'' then ObjectPrototype
     else if prop \<in> set Array_prototype_names then Builtin (''Array.prototype.'' @ prop)
     else get_ObjectPrototype prop)"

text \<open>
  \<^verbatim>\<open>obj[prop]\<close> for a string \<^verbatim>\<open>prop\<close>. An own property wins; an array owns
  its canonical index strings and \<^verbatim>\<open>length\<close>; everything else is looked up on the
  prototype chain. Reading a property of \<^verbatim>\<open>undefined\<close> or \<^verbatim>\<open>null\<close> throws
  a \<^verbatim>\<open>TypeError\<close>. Reading a property of any other primitive or of a function
  goes through a wrapper object in JavaScript; the wrappers are not part of this model and
  such a read is reported as \<open>Unmodelled\<close>.
\<close>

fun get :: "jsval \<Rightarrow> string \<Rightarrow> error + jsval" where
  "get Undefined prop = Inl TypeError"
| "get Null prop = Inl TypeError"
| "get (Arr r xs) prop =
    (case map_of (zip (map show_nat [0..<length xs]) xs) prop of
       Some x \<Rightarrow> Inr x
     | None \<Rightarrow>
        if prop = ''length'' then Inr (Num (Finite (of_nat (length xs))))
        else if prop = ''__proto__'' then Inr ArrayPrototype
        else Inr (get_ArrayPrototype prop))"
| "get (Obj r kvs) prop =
    (case map_of kvs prop of
       Some x \<Rightarrow> Inr x
     | None \<Rightarrow>
        if prop = ''__proto__'' then Inr ObjectPrototype
        else Inr (get_ObjectPrototype prop))"
| "get ObjectPrototype prop = Inr (get_ObjectPrototype prop)"
| "get ArrayPrototype prop = Inr (get_ArrayPrototype prop)"
| "get _ prop = Inl Unmodelled"

section \<open>The structural diff\<close>

text \<open>A JSON Patch operation, the tagged union of \<^verbatim>\<open>json-element.d.ts\<close>.\<close>

datatype patch =
    Add string jsval
  | Replace string jsval
  | Remove string

text \<open>\<^verbatim>\<open>Array.isArray\<close>, \<^verbatim>\<open>Object.keys\<close> and the source's \<^verbatim>\<open>keys\<close>.\<close>

fun isArray :: "jsval \<Rightarrow> bool" where
  "isArray (Arr r xs) = True"
| "isArray ArrayPrototype = True"
| "isArray _ = False"

fun array_length :: "jsval \<Rightarrow> nat" where
  "array_length (Arr r xs) = length xs"
| "array_length _ = 0"

fun Object_keys :: "jsval \<Rightarrow> error + string list" where
  "Object_keys Undefined = Inl TypeError"
| "Object_keys Null = Inl TypeError"
| "Object_keys (Obj r kvs) = Inr (map fst kvs)"
| "Object_keys (Arr r xs) = Inr (map show_nat [0..<length xs])"
| "Object_keys (Str s) = Inr (map show_nat [0..<length s])"
| "Object_keys _ = Inr []"

definition keys :: "jsval \<Rightarrow> error + string list" where
  "keys obj =
    (if isArray obj then Inr (map (\<lambda>i. '''' @ show_nat i) [0..<array_length obj])
     else Object_keys obj)"

text \<open>\<^verbatim>\<open>s.replace(/c/g, r)\<close> for a single literal character \<^verbatim>\<open>c\<close>.\<close>

definition replace_all :: "char \<Rightarrow> string \<Rightarrow> string \<Rightarrow> string" where
  "replace_all c r s = concat (map (\<lambda>x. if x = c then r else [x]) s)"

definition append_path :: "string \<Rightarrow> string \<Rightarrow> string" where
  "append_path path prop =
    path @ ''/'' @ replace_all CHR ''/'' ''~1'' (replace_all CHR ''~'' ''~0'' prop)"

definition isScalar :: "jsval \<Rightarrow> bool" where
  "isScalar x = (typeof x \<noteq> ''object'' \<or> strict_eq x Null)"

text \<open>The second loop of \<^verbatim>\<open>diff\<close>: one \<^verbatim>\<open>remove\<close> for each key of
  \<^verbatim>\<open>prev\<close> that \<^verbatim>\<open>next\<close> does not have.\<close>

fun diff_deletions :: "jsval \<Rightarrow> string \<Rightarrow> string list \<Rightarrow> patch list \<Rightarrow> error + patch list" where
  "diff_deletions next path [] patches = Inr patches"
| "diff_deletions next path (prop # props) patches =
    (case get next prop of
       Inl e \<Rightarrow> Inl e
     | Inr n \<Rightarrow>
        if typeof n = ''undefined''
        then diff_deletions next path props (patches @ [Remove (append_path path prop)])
        else diff_deletions next path props patches)"

text \<open>
  The measure of the recursion: a container is larger than everything a property read
  can return from it.
\<close>

fun rank :: "jsval \<Rightarrow> nat" where
  "rank (Arr r xs) = 3 + sum_list (map rank xs)"
| "rank (Obj r kvs) = 3 + sum_list (map (\<lambda>kv. rank (snd kv)) kvs)"
| "rank ArrayPrototype = 2"
| "rank ObjectPrototype = 1"
| "rank _ = 0"

definition nkeys :: "jsval \<Rightarrow> nat" where
  "nkeys x = (case keys x of Inl e \<Rightarrow> 0 | Inr ks \<Rightarrow> length ks)"

lemma rank_get_ObjectPrototype: "rank (get_ObjectPrototype prop) = 0"
  by (simp add: get_ObjectPrototype_def)

lemma rank_get_ArrayPrototype: "rank (get_ArrayPrototype prop) \<le> 1"
  by (simp add: get_ArrayPrototype_def rank_get_ObjectPrototype)

lemma rank_member: "x \<in> set xs \<Longrightarrow> rank x \<le> sum_list (map rank xs)"
  by (induction xs) auto

lemma rank_map_of: "map_of kvs k = Some x \<Longrightarrow> rank x \<le> sum_list (map (\<lambda>kv. rank (snd kv)) kvs)"
  by (induction kvs) (auto split: if_splits)

lemma rank_get: "get x prop = Inr y \<Longrightarrow> rank y < rank x"
proof (cases x)
  case (Arr r xs)
  assume g: "get x prop = Inr y"
  show ?thesis
  proof (cases "map_of (zip (map show_nat [0..<length xs]) xs) prop")
    case None
    with g Arr show ?thesis
      using rank_get_ArrayPrototype [of "prop"] by (auto split: if_splits)
  next
    case (Some a)
    then have "a \<in> set xs" by (meson in_set_zipE map_of_SomeD)
    then have "rank a \<le> sum_list (map rank xs)" by (rule rank_member)
    with g Arr Some show ?thesis by simp
  qed
next
  case (Obj r kvs)
  assume g: "get x prop = Inr y"
  show ?thesis
  proof (cases "map_of kvs prop")
    case None
    with g Obj show ?thesis
      using rank_get_ObjectPrototype [of "prop"] by (auto split: if_splits)
  next
    case (Some a)
    then have "rank a \<le> sum_list (map (\<lambda>kv. rank (snd kv)) kvs)" by (rule rank_map_of)
    with g Obj Some show ?thesis by simp
  qed
next
  case ObjectPrototype
  assume "get x prop = Inr y"
  with ObjectPrototype show ?thesis using rank_get_ObjectPrototype [of "prop"] by auto
next
  case ArrayPrototype
  assume "get x prop = Inr y"
  with ArrayPrototype show ?thesis using rank_get_ArrayPrototype [of "prop"] by auto
qed auto

text \<open>
  \<^verbatim>\<open>diff(prev, next, path)\<close>. The first loop is \<open>diff_changes\<close>, which walks the
  keys of \<^verbatim>\<open>next\<close> that are still to be visited and carries the patches pushed so
  far.
\<close>

function diff :: "jsval \<Rightarrow> jsval \<Rightarrow> string \<Rightarrow> error + patch list"
  and diff_changes :: "jsval \<Rightarrow> jsval \<Rightarrow> string \<Rightarrow> string list \<Rightarrow> patch list \<Rightarrow> error + patch list"
where
  "diff prev next path =
    (if strict_eq prev next then Inr []
     else if isScalar prev \<or> isScalar next then Inr [Replace path next]
     else (case keys next of
             Inl e \<Rightarrow> Inl e
           | Inr ks \<Rightarrow>
              (case diff_changes prev next path ks [] of
                 Inl e \<Rightarrow> Inl e
               | Inr patches \<Rightarrow>
                  (case keys prev of
                     Inl e \<Rightarrow> Inl e
                   | Inr ks' \<Rightarrow> diff_deletions next path ks' patches))))"
| "diff_changes prev next path [] patches = Inr patches"
| "diff_changes prev next path (prop # props) patches =
    (let newPath = append_path path prop in
     case get prev prop of
       Inl e \<Rightarrow> Inl e
     | Inr p \<Rightarrow>
        (case get next prop of
           Inl e \<Rightarrow> Inl e
         | Inr n \<Rightarrow>
            if typeof p = ''undefined''
            then diff_changes prev next path props (patches @ [Add newPath n])
            else if typeof n = ''object'' \<and> typeof p = ''object''
            then (case diff p n newPath of
                    Inl e \<Rightarrow> Inl e
                  | Inr sub \<Rightarrow> diff_changes prev next path props (patches @ sub))
            else if \<not> strict_eq p n
            then diff_changes prev next path props (patches @ [Replace newPath n])
            else diff_changes prev next path props patches))"
  by pat_completeness auto
termination
proof (relation "inv_image (less_than <*lex*> less_than)
    (\<lambda>a. case a of
       Inl (prev, next, path) \<Rightarrow> (rank next, Suc (nkeys next))
     | Inr (prev, next, path, props, patches) \<Rightarrow> (rank next, length props))")
qed (auto simp: nkeys_def dest: rank_get)

declare diff.simps [simp del]

text \<open>
  The escaping of one path segment as the JSON Pointer standard words it: every
  \<^verbatim>\<open>~\<close> becomes \<^verbatim>\<open>~0\<close> and every \<^verbatim>\<open>/\<close> becomes \<^verbatim>\<open>~1\<close>, character by
  character.
\<close>

definition escape_segment :: "string \<Rightarrow> string" where
  "escape_segment prop =
    concat (map (\<lambda>c. if c = CHR ''~'' then ''~0'' else if c = CHR ''/'' then ''~1'' else [c]) prop)"


subsection \<open>The call stack\<close>



text \<open>
  A JSON value: no \<^verbatim>\<open>undefined\<close>, no function, no non-finite number, and objects
  with pairwise different keys.
\<close>

fun is_json :: "jsval \<Rightarrow> bool" where
  "is_json Null = True"
| "is_json (Bool b) = True"
| "is_json (Num n) = (case n of Finite q \<Rightarrow> True | _ \<Rightarrow> False)"
| "is_json (Str s) = True"
| "is_json (Arr r xs) = (\<forall>x \<in> set xs. is_json x)"
| "is_json (Obj r kvs) = (distinct (map fst kvs) \<and> (\<forall>kv \<in> set kvs. is_json (snd kv)))"
| "is_json _ = False"

text \<open>
  Deep equality: the same shape and the same primitives, whatever the addresses of the
  containers and whatever the order of an object's keys.
\<close>

function (sequential) deep_equal :: "jsval \<Rightarrow> jsval \<Rightarrow> bool" where
  "deep_equal (Arr r xs) b =
    (case b of
       Arr r' ys \<Rightarrow> length xs = length ys \<and> (\<forall>i \<in> set [0..<length xs]. deep_equal (xs ! i) (ys ! i))
     | _ \<Rightarrow> False)"
| "deep_equal (Obj r kvs) b =
    (case b of
       Obj r' kvs' \<Rightarrow>
         set (map fst kvs) = set (map fst kvs') \<and>
         (\<forall>kv \<in> set kvs.
            case map_of kvs' (fst kv) of None \<Rightarrow> False | Some v' \<Rightarrow> deep_equal (snd kv) v')
     | _ \<Rightarrow> False)"
| "deep_equal a b = (a = b)"
  by pat_completeness auto
termination
proof (relation "measure (\<lambda>(a, b). size a)")
  fix r :: ref and xs ys :: "jsval list" and b :: jsval and i :: nat
  assume "i \<in> set [0..<length xs]"
  then have "xs ! i \<in> set xs" by simp
  then have "size (xs ! i) < Suc (size_list size xs)"
    by (simp add: less_Suc_eq_le size_list_estimation')
  then show "((xs ! i, ys ! i), (Arr r xs, b)) \<in> measure (\<lambda>(a, b). size a)" by simp
next
  fix r :: ref and kvs :: "(string \<times> jsval) list" and b v' :: jsval and kv :: "string \<times> jsval"
  assume "kv \<in> set kvs"
  then have "size (snd kv) < Suc (size_list (size_prod (\<lambda>x. 0) size) kvs)"
    by (induction kvs) auto
  then show "((snd kv, v'), (Obj r kvs, b)) \<in> measure (\<lambda>(a, b). size a)" by simp
qed simp

text \<open>
  \<^verbatim>\<open>xs.splice(i, 1)\<close>: the array without its element at index \<open>i\<close>.
\<close>

definition remove_at :: "nat \<Rightarrow> 'a list \<Rightarrow> 'a list" where
  "remove_at i xs = take i xs @ drop (Suc i) xs"

text \<open>
  What an element of the array is after the removal: the very same value, or a deep-equal
  copy of it (the \<^verbatim>\<open>json\<close> accessor builds fresh arrays and objects at every call).
\<close>

definition same_or_copy :: "jsval \<Rightarrow> jsval \<Rightarrow> bool" where
  "same_or_copy x y = (y = x \<or> (is_json x \<and> is_json y \<and> deep_equal x y))"

text \<open>
  The patch list that the specification announces for the removal of the element at
  index \<open>i\<close>: a \<^verbatim>\<open>replace\<close> at every index from \<open>i\<close> on that receives its
  successor's value, then one \<^verbatim>\<open>remove\<close> of the last index.
\<close>

definition cascade_as_specified :: "string \<Rightarrow> jsval list \<Rightarrow> nat \<Rightarrow> patch list" where
  "cascade_as_specified path xs i =
    map (\<lambda>j. Replace (append_path path (show_nat j)) (xs ! Suc j)) [i..<length xs - 1]
    @ [Remove (append_path path (show_nat (length xs - 1)))]"

section \<open>Applying JSON Patch operations\<close>

text \<open>
  The repository only produces patches; what applying one means is fixed by RFC 6902
  (operations) and RFC 6901 (JSON Pointer), and is modelled here from those two
  documents. A pointer is the empty string or a sequence of \<^verbatim>\<open>/\<close>-prefixed tokens;
  in a token \<^verbatim>\<open>~1\<close> stands for \<^verbatim>\<open>/\<close> and \<^verbatim>\<open>~0\<close> for \<^verbatim>\<open>~\<close>. An array is
  addressed by the decimal string of an index without leading zeros. \<^verbatim>\<open>add\<close> inserts
  into an array (at an index up to its length, or at \<^verbatim>\<open>-\<close> for the end) and sets a
  member of an object; \<^verbatim>\<open>replace\<close> and \<^verbatim>\<open>remove\<close> need their target to exist.
\<close>

datatype patch_error = InvalidPointer | NoSuchTarget

fun unescape :: "string \<Rightarrow> string" where
  "unescape (c # d # s) =
    (if c = CHR ''~'' \<and> d = CHR ''1'' then CHR ''/'' # unescape s
     else if c = CHR ''~'' \<and> d = CHR ''0'' then CHR ''~'' # unescape s
     else c # unescape (d # s))"
| "unescape s = s"

fun split_slash :: "string \<Rightarrow> string list" where
  "split_slash [] = [[]]"
| "split_slash (c # s) =
    (if c = CHR ''/'' then [] # split_slash s
     else (case split_slash s of [] \<Rightarrow> [[c]] | t # ts \<Rightarrow> (c # t) # ts))"

definition pointer_tokens :: "string \<Rightarrow> string list option" where
  "pointer_tokens p =
    (case p of
       [] \<Rightarrow> Some []
     | c # s \<Rightarrow> if c = CHR ''/'' then Some (map unescape (split_slash s)) else None)"

definition array_index :: "string \<Rightarrow> nat \<Rightarrow> nat option" where
  "array_index t n = find (\<lambda>i. show_nat i = t) [0..<n]"

fun get_member :: "jsval \<Rightarrow> string \<Rightarrow> jsval option" where
  "get_member (Obj r kvs) t = map_of kvs t"
| "get_member (Arr r xs) t = map_option (\<lambda>i. xs ! i) (array_index t (length xs))"
| "get_member _ t = None"

fun set_member :: "jsval \<Rightarrow> string \<Rightarrow> jsval \<Rightarrow> jsval" where
  "set_member (Obj r kvs) t v = Obj r (map (\<lambda>kv. if fst kv = t then (t, v) else kv) kvs)"
| "set_member (Arr r xs) t v =
    (case array_index t (length xs) of None \<Rightarrow> Arr r xs | Some i \<Rightarrow> Arr r (xs[i := v]))"
| "set_member d t v = d"

fun add_member :: "jsval \<Rightarrow> jsval \<Rightarrow> string \<Rightarrow> patch_error + jsval" where
  "add_member v (Obj r kvs) t =
    (if t \<in> set (map fst kvs) then Inr (set_member (Obj r kvs) t v)
     else Inr (Obj r (kvs @ [(t, v)])))"
| "add_member v (Arr r xs) t =
    (if t = ''-'' then Inr (Arr r (xs @ [v]))
     else (case array_index t (Suc (length xs)) of
             None \<Rightarrow> Inl NoSuchTarget
           | Some i \<Rightarrow> Inr (Arr r (take i xs @ v # drop i xs))))"
| "add_member v d t = Inl NoSuchTarget"

fun replace_member :: "jsval \<Rightarrow> jsval \<Rightarrow> string \<Rightarrow> patch_error + jsval" where
  "replace_member v d t =
    (case get_member d t of None \<Rightarrow> Inl NoSuchTarget | Some old \<Rightarrow> Inr (set_member d t v))"

fun remove_member :: "jsval \<Rightarrow> string \<Rightarrow> patch_error + jsval" where
  "remove_member (Obj r kvs) t =
    (if t \<in> set (map fst kvs) then Inr (Obj r (filter (\<lambda>kv. fst kv \<noteq> t) kvs))
     else Inl NoSuchTarget)"
| "remove_member (Arr r xs) t =
    (case array_index t (length xs) of
       None \<Rightarrow> Inl NoSuchTarget
     | Some i \<Rightarrow> Inr (Arr r (remove_at i xs)))"
| "remove_member d t = Inl NoSuchTarget"

text \<open>Walk down to the parent of the target, act there, and rebuild the way back.\<close>

fun at_pointer ::
  "(jsval \<Rightarrow> string \<Rightarrow> patch_error + jsval) \<Rightarrow> string list \<Rightarrow> jsval \<Rightarrow> patch_error + jsval" where
  "at_pointer f [] doc = Inl NoSuchTarget"
| "at_pointer f [t] doc = f doc t"
| "at_pointer f (t # ts) doc =
    (case get_member doc t of
       None \<Rightarrow> Inl NoSuchTarget
     | Some child \<Rightarrow>
        (case at_pointer f ts child of
           Inl e \<Rightarrow> Inl e
         | Inr child' \<Rightarrow> Inr (set_member doc t child')))"

fun apply_patch :: "patch \<Rightarrow> jsval \<Rightarrow> patch_error + jsval" where
  "apply_patch (Add p v) doc =
    (case pointer_tokens p of
       None \<Rightarrow> Inl InvalidPointer
     | Some [] \<Rightarrow> Inr v
     | Some ts \<Rightarrow> at_pointer (add_member v) ts doc)"
| "apply_patch (Replace p v) doc =
    (case pointer_tokens p of
       None \<Rightarrow> Inl InvalidPointer
     | Some [] \<Rightarrow> Inr v
     | Some ts \<Rightarrow> at_pointer (replace_member v) ts doc)"
| "apply_patch (Remove p) doc =
    (case pointer_tokens p of
       None \<Rightarrow> Inl InvalidPointer
     | Some ts \<Rightarrow> at_pointer remove_member ts doc)"

text \<open>The operations of a list are applied in order; the first failure aborts.\<close>

fun apply_patches :: "patch list \<Rightarrow> jsval \<Rightarrow> patch_error + jsval" where
  "apply_patches [] doc = Inr doc"
| "apply_patches (p # ps) doc =
    (case apply_patch p doc of Inl e \<Rightarrow> Inl e | Inr doc' \<Rightarrow> apply_patches ps doc')"

section \<open>Objects under construction\<close>

text \<open>
  \<^verbatim>\<open>obj[key] = value\<close> on a plain object. An existing key keeps its place. A new key
  that is an array index (the canonical decimal string of an integer below \<open>2\<^sup>3\<^sup>2 - 1\<close>)
  is placed among the index keys in ascending numeric order, before all other keys; any
  other new key goes to the end. This is the order in which \<^verbatim>\<open>Object.keys\<close> and
  \<^verbatim>\<open>Object.entries\<close> enumerate. Assigning to \<^verbatim>\<open>__proto__\<close>, when the object has no
  own property of that name, reaches the inherited setter and adds no key (what the
  setter does to the prototype is not followed here).
\<close>

definition digit_value :: "char \<Rightarrow> nat" where
  "digit_value c = (case find (\<lambda>d. digit_char d = c) [0..<10] of None \<Rightarrow> 0 | Some d \<Rightarrow> d)"

definition read_int :: "string \<Rightarrow> int" where
  "read_int s = foldl (\<lambda>n c. 10 * n + int (digit_value c)) 0 s"

definition integer_index :: "string \<Rightarrow> nat option" where
  "integer_index k =
    (if k \<noteq> [] \<and> list_all (\<lambda>c. c \<in> set ''0123456789'') k \<and> (k = ''0'' \<or> hd k \<noteq> CHR ''0'')
        \<and> read_int k < 4294967295
     then Some (nat (read_int k)) else None)"

fun insert_index :: "nat \<Rightarrow> string \<times> 'v \<Rightarrow> (string \<times> 'v) list \<Rightarrow> (string \<times> 'v) list" where
  "insert_index i kv [] = [kv]"
| "insert_index i kv (e # es) =
    (case integer_index (fst e) of
       None \<Rightarrow> kv # e # es
     | Some j \<Rightarrow> if j < i then e # insert_index i kv es else kv # e # es)"

definition obj_set :: "(string \<times> 'v) list \<Rightarrow> string \<Rightarrow> 'v \<Rightarrow> (string \<times> 'v) list" where
  "obj_set kvs k v =
    (if k \<in> set (map fst kvs) then map (\<lambda>kv. if fst kv = k then (k, v) else kv) kvs
     else if k = ''__proto__'' then kvs
     else (case integer_index k of
             None \<Rightarrow> kvs @ [(k, v)]
           | Some i \<Rightarrow> insert_index i (k, v) kvs))"

text \<open>
  The key lists of the objects that assignments build: index keys first and ascending,
  then the other keys, no key twice, and no \<^verbatim>\<open>__proto__\<close>.
\<close>

definition key_before :: "string \<Rightarrow> string \<Rightarrow> bool" where
  "key_before a b =
    (case integer_index a of
       None \<Rightarrow> (case integer_index b of None \<Rightarrow> True | Some j \<Rightarrow> False)
     | Some i \<Rightarrow> (case integer_index b of None \<Rightarrow> True | Some j \<Rightarrow> i < j))"

definition own_key_order :: "string list \<Rightarrow> bool" where
  "own_key_order ks = (distinct ks \<and> ''__proto__'' \<notin> set ks \<and> sorted_wrt key_before ks)"

text \<open>
  A property definition \<^verbatim>\<open>key: value\<close> in an object literal, such as the one that
  initialises \<^verbatim>\<open>static schema\<close>. It creates the own property or overwrites its value,
  with the same placement of a new key as an assignment, but it never reaches a setter: a
  definition with the computed key \<^verbatim>\<open>["__proto__"]\<close> creates an own property of that name.
  (With a key that is not computed, \<^verbatim>\<open>__proto__: value\<close> is no property definition: it
  sets the prototype of the new object, and is not part of the lists below.)
  \<open>object_literal\<close> is the object that a literal creates from its property definitions,
  taken in the order in which they are written, as \<^verbatim>\<open>Object.entries\<close> lists it.
\<close>

definition obj_define :: "(string \<times> 'v) list \<Rightarrow> string \<Rightarrow> 'v \<Rightarrow> (string \<times> 'v) list" where
  "obj_define kvs k v =
    (if k \<in> set (map fst kvs) then map (\<lambda>kv. if fst kv = k then (k, v) else kv) kvs
     else (case integer_index k of
             None \<Rightarrow> kvs @ [(k, v)]
           | Some i \<Rightarrow> insert_index i (k, v) kvs))"

definition object_literal :: "(string \<times> 'v) list \<Rightarrow> (string \<times> 'v) list" where
  "object_literal definitions = fold (\<lambda>kv kvs. obj_define kvs (fst kv) (snd kv)) definitions []"

text \<open>
  The order in which JavaScript enumerates the own string keys of an object, as the
  language standard words it (ECMA-262, OrdinaryOwnPropertyKeys): first the keys that are
  array indices, in ascending numeric order, then all other keys in the order in which the
  properties were created. \<open>ks\<close> lists the keys in the order of creation.
\<close>

definition index_of_key :: "string \<Rightarrow> nat" where
  "index_of_key k = (case integer_index k of None \<Rightarrow> 0 | Some i \<Rightarrow> i)"

definition own_property_order :: "string list \<Rightarrow> string list" where
  "own_property_order ks =
    sort_key index_of_key (filter (\<lambda>k. integer_index k \<noteq> None) ks) @
    filter (\<lambda>k. integer_index k = None) ks"

section \<open>Getters and schema compilation\<close>

text \<open>
  What the element engine needs from its host: the conversion \<^verbatim>\<open>Number(s)\<close> of a
  string, and the selector parser, given as the slot name that the selector
  \<^verbatim>\<open>slot[name=KEY]\<close> matches for a key, or nothing when the selector does not parse
  (\<^verbatim>\<open>querySelector\<close> then throws a \<^verbatim>\<open>SyntaxError\<close>).
\<close>

record host =
  Number :: "string \<Rightarrow> jsnum"
  slot_selector :: "string \<Rightarrow> string option"

text \<open>
  An element assigned to a slot, as a getter sees it: a \<^verbatim>\<open>JSONElement\<close> with the value
  its \<^verbatim>\<open>json\<close> accessor returns in the current state of the document, or some other
  element.
\<close>

datatype element = JSONElement jsval | OtherElement

fun json_of :: "element \<Rightarrow> jsval" where
  "json_of (JSONElement v) = v"
| "json_of OtherElement = Undefined"

fun instanceof_JSONElement :: "element \<Rightarrow> bool" where
  "instanceof_JSONElement (JSONElement v) = True"
| "instanceof_JSONElement OtherElement = False"

text \<open>
  A \<^verbatim>\<open>ValueGetter\<close>: a function of the attribute value (\<open>None\<close> for \<^verbatim>\<open>null\<close>)
  and the slotted elements, with its \<^verbatim>\<open>length\<close>. A call may create arrays or
  objects, so it takes the next free address and returns the one after its allocations.
  A call always returns: a custom function that throws is outside this model.
\<close>

record getter =
  fn_length :: nat
  fn_call :: "string option \<Rightarrow> element list \<Rightarrow> ref \<Rightarrow> jsval \<times> ref"

definition string :: "string option \<Rightarrow> jsval" where
  "string value = (case value of None \<Rightarrow> Undefined | Some s \<Rightarrow> if s = [] then Undefined else Str s)"

definition boolean :: "string option \<Rightarrow> jsval" where
  "boolean value = Bool (value \<noteq> None)"

definition number :: "host \<Rightarrow> string option \<Rightarrow> jsval" where
  "number h value =
    (case value of
       None \<Rightarrow> Undefined
     | Some s \<Rightarrow> (let num = Number h s in if num = NaN then Undefined else Num num))"

definition object :: "element list \<Rightarrow> jsval" where
  "object els = (case els of [] \<Rightarrow> Undefined | el # rest \<Rightarrow> json_of el)"

definition array :: "element list \<Rightarrow> ref \<Rightarrow> jsval \<times> ref" where
  "array els a = (Arr a (map json_of els), Suc a)"

datatype schema_input =
    Value jsval
  | BooleanCtor
  | NumberCtor
  | StringCtor
  | ObjectCtor
  | ArrayCtor
  | ElementClass string
  | ArrayOf "schema_input list"
  | Function getter

text \<open>
  \<open>Value\<close> is a schema input that is a plain value; the five constructors are the
  globals \<^verbatim>\<open>Boolean\<close>, \<^verbatim>\<open>Number\<close>, \<^verbatim>\<open>String\<close>, \<^verbatim>\<open>Object\<close> and \<^verbatim>\<open>Array\<close>;
  \<open>ElementClass\<close> is a subclass of \<^verbatim>\<open>JSONElement\<close>, named by its tag; \<open>ArrayOf\<close>
  is an array literal of schema inputs; \<open>Function\<close> is any other function, such as a
  custom getter or the result of \<^verbatim>\<open>Enum\<close>.
\<close>

fun schema_typeof :: "schema_input \<Rightarrow> string" where
  "schema_typeof (Value v) = typeof v"
| "schema_typeof (ArrayOf xs) = ''object''"
| "schema_typeof _ = ''function''"

fun schema_length :: "schema_input \<Rightarrow> nat" where
  "schema_length (Function fn) = fn_length fn"
| "schema_length (ElementClass c) = 0"
| "schema_length (Value v) = 0"
| "schema_length (ArrayOf xs) = length xs"
| "schema_length _ = 1"

definition LITERAL_TYPES :: "string list" where
  "LITERAL_TYPES = [''boolean'', ''number'', ''string'', ''null'']"

fun literal_value :: "schema_input \<Rightarrow> jsval" where
  "literal_value (Value v) = v"
| "literal_value _ = Undefined"

definition isLiteralSchema :: "schema_input \<Rightarrow> bool" where
  "isLiteralSchema schema = (schema_typeof schema \<in> set LITERAL_TYPES)"

fun isArraySchema :: "schema_input \<Rightarrow> bool" where
  "isArraySchema (Value v) = isArray v"
| "isArraySchema (ArrayOf xs) = True"
| "isArraySchema ArrayCtor = True"
| "isArraySchema _ = False"

fun isObjectSchema :: "schema_input \<Rightarrow> bool" where
  "isObjectSchema (ElementClass c) = True"
| "isObjectSchema ObjectCtor = True"
| "isObjectSchema _ = False"

definition isCompositeSchema :: "schema_input \<Rightarrow> bool" where
  "isCompositeSchema schema =
    (isObjectSchema schema \<or> isArraySchema schema \<or>
     (schema_typeof schema = ''function'' \<and> schema_length schema \<ge> 2))"

text \<open>
  \<^verbatim>\<open>compile\<close>. The tests of the source are made in its order. A \<open>Value\<close> that is a
  function can only be one of the built-in functions of the value model; calling those
  is not modelled.
\<close>

definition compile :: "host \<Rightarrow> schema_input \<Rightarrow> error + getter" where
  "compile h schema =
    (if isLiteralSchema schema
     then Inr \<lparr>fn_length = 0, fn_call = (\<lambda>value els a. (literal_value schema, a))\<rparr>
     else (case schema of
             BooleanCtor \<Rightarrow> Inr \<lparr>fn_length = 1, fn_call = (\<lambda>value els a. (boolean value, a))\<rparr>
           | NumberCtor \<Rightarrow> Inr \<lparr>fn_length = 1, fn_call = (\<lambda>value els a. (number h value, a))\<rparr>
           | StringCtor \<Rightarrow> Inr \<lparr>fn_length = 1, fn_call = (\<lambda>value els a. (string value, a))\<rparr>
           | _ \<Rightarrow>
              if isObjectSchema schema
              then Inr \<lparr>fn_length = 2, fn_call = (\<lambda>value els a. (object els, a))\<rparr>
              else if isArraySchema schema
              then Inr \<lparr>fn_length = 2, fn_call = (\<lambda>value els a. array els a)\<rparr>
              else if schema_typeof schema = ''function''
              then (case schema of Function fn \<Rightarrow> Inr fn | _ \<Rightarrow> Inl Unmodelled)
              else Inl InvalidSchema))"

text \<open>
  \<^verbatim>\<open>Enum(...schemata)\<close>: every alternative is compiled when the enumeration is built;
  the returned getter runs the compiled alternatives in order and stops at the first
  result that is not \<^verbatim>\<open>undefined\<close>.
\<close>

fun compile_all :: "host \<Rightarrow> schema_input list \<Rightarrow> error + getter list" where
  "compile_all h [] = Inr []"
| "compile_all h (schema # schemata) =
    (case compile h schema of
       Inl e \<Rightarrow> Inl e
     | Inr fn \<Rightarrow> (case compile_all h schemata of Inl e \<Rightarrow> Inl e | Inr fns \<Rightarrow> Inr (fn # fns)))"

fun Enum_call :: "getter list \<Rightarrow> string option \<Rightarrow> element list \<Rightarrow> ref \<Rightarrow> jsval \<times> ref" where
  "Enum_call [] value els a = (Undefined, a)"
| "Enum_call (fn # fns) value els a =
    (case fn_call fn value els a of
       (result, a') \<Rightarrow> if result \<noteq> Undefined then (result, a') else Enum_call fns value els a')"

definition Enum :: "host \<Rightarrow> schema_input list \<Rightarrow> error + getter" where
  "Enum h schemata =
    (case compile_all h schemata of
       Inl e \<Rightarrow> Inl e
     | Inr fns \<Rightarrow> Inr \<lparr>fn_length = 2, fn_call = Enum_call fns\<rparr>)"

text \<open>
  The alternatives of a list all answer \<^verbatim>\<open>undefined\<close> when called one after the
  other from address \<open>a\<close>, and leave the next free address \<open>a'\<close>.
\<close>

fun all_undefined :: "getter list \<Rightarrow> string option \<Rightarrow> element list \<Rightarrow> ref \<Rightarrow> ref option" where
  "all_undefined [] value els a = Some a"
| "all_undefined (fn # fns) value els a =
    (case fn_call fn value els a of
       (result, a') \<Rightarrow> if result = Undefined then all_undefined fns value els a' else None)"

section \<open>Element instances\<close>

text \<open>
  The private fields of an instance (\<^verbatim>\<open>#queued\<close>, \<^verbatim>\<open>#prev\<close>, \<^verbatim>\<open>#schema\<close>, an
  object kept as its entry list) and the names of the slots that its constructor
  appended to the shadow root.
\<close>

record element_state =
  hash_queued :: bool
  hash_prev :: jsval
  hash_schema :: "(string \<times> getter) list"
  slots :: "string list"

text \<open>
  The state of the document around an instance: its attributes and, for each slot name,
  the elements assigned to that slot in document order.
\<close>

record dom =
  getAttribute :: "string \<Rightarrow> string option"
  assignedElements :: "string \<Rightarrow> element list"

definition hasAttribute :: "dom \<Rightarrow> string \<Rightarrow> bool" where
  "hasAttribute d name = (getAttribute d name \<noteq> None)"

datatype task = Notify

datatype target = This | Descendant | Foreign

record event =
  ev_type :: string
  ev_target :: target
  detail :: "patch list option"

text \<open>
  The world outside the instance: the next free heap address, the microtask queue, the
  events dispatched so far, and a counter of the calls of \<^verbatim>\<open>compile\<close> (not a variable
  of the program; it makes the number of compilations a fact that can be stated).
\<close>

record world =
  heap_next :: ref
  microtasks :: "task list"
  dispatched :: "event list"
  compile_calls :: nat

text \<open>The constructor: compile every entry of the class schema, create a slot for the
  composite ones.\<close>

fun construct_entries ::
  "host \<Rightarrow> (string \<times> schema_input) list \<Rightarrow> element_state \<Rightarrow> world \<Rightarrow> error + element_state \<times> world" where
  "construct_entries h [] this w = Inr (this, w)"
| "construct_entries h ((key, value) # entries) this w =
    (case compile h value of
       Inl e \<Rightarrow> Inl e
     | Inr fn \<Rightarrow>
        (let w' = w\<lparr>compile_calls := Suc (compile_calls w)\<rparr>;
             this' = this\<lparr>hash_schema := obj_set (hash_schema this) key fn\<rparr>
         in if \<not> isCompositeSchema value then construct_entries h entries this' w'
            else construct_entries h entries (this'\<lparr>slots := slots this' @ [key]\<rparr>) w'))"

definition constructor :: "host \<Rightarrow> (string \<times> schema_input) list \<Rightarrow> world \<Rightarrow> error + element_state \<times> world" where
  "constructor h class_schema w =
    construct_entries h class_schema \<lparr>hash_queued = False, hash_prev = Null, hash_schema = [], slots = []\<rparr> w"

text \<open>
  \<^verbatim>\<open>#slotted(name)\<close>: the \<^verbatim>\<open>JSONElement\<close>s assigned to the slot that the selector
  finds in the shadow root. The bare selector \<^verbatim>\<open>slot\<close> finds the first slot.
\<close>

definition querySelector_slot :: "host \<Rightarrow> element_state \<Rightarrow> string \<Rightarrow> error + string option" where
  "querySelector_slot h this name =
    (if name = [] then Inr (case slots this of [] \<Rightarrow> None | s # rest \<Rightarrow> Some s)
     else (case slot_selector h name of
             None \<Rightarrow> Inl SyntaxError
           | Some n \<Rightarrow> Inr (find (\<lambda>s. s = n) (slots this))))"

definition slotted :: "host \<Rightarrow> element_state \<Rightarrow> dom \<Rightarrow> string \<Rightarrow> error + element list" where
  "slotted h this d name =
    (case querySelector_slot h this name of
       Inl e \<Rightarrow> Inl e
     | Inr slot \<Rightarrow>
        (let els = (case slot of None \<Rightarrow> [] | Some s \<Rightarrow> assignedElements d s)
         in Inr (filter instanceof_JSONElement els)))"

text \<open>The \<^verbatim>\<open>json\<close> accessor: a fresh object, filled key by key.\<close>

fun json_entries ::
  "host \<Rightarrow> element_state \<Rightarrow> dom \<Rightarrow> (string \<times> getter) list \<Rightarrow> (string \<times> jsval) list \<Rightarrow> ref \<Rightarrow>
   error + (string \<times> jsval) list \<times> ref" where
  "json_entries h this d [] props a = Inr (props, a)"
| "json_entries h this d ((key, fn) # entries) props a =
    (case (if isCompositeSchema (Function fn) then slotted h this d key else Inr []) of
       Inl e \<Rightarrow> Inl e
     | Inr els \<Rightarrow>
        (case fn_call fn (getAttribute d key) els a of
           (value, a') \<Rightarrow>
             if value \<noteq> Undefined then json_entries h this d entries (obj_set props key value) a'
             else json_entries h this d entries props a'))"

definition json_accessor :: "host \<Rightarrow> element_state \<Rightarrow> dom \<Rightarrow> ref \<Rightarrow> error + jsval \<times> ref" where
  "json_accessor h this d a =
    (case json_entries h this d (hash_schema this) [] (Suc a) of
       Inl e \<Rightarrow> Inl e
     | Inr (props, a') \<Rightarrow> Inr (Obj a props, a'))"

text \<open>
  The values the getters return during one run of the accessor, key by key, each called
  at the address its predecessors left.
\<close>

fun getter_values ::
  "host \<Rightarrow> element_state \<Rightarrow> dom \<Rightarrow> (string \<times> getter) list \<Rightarrow> ref \<Rightarrow> (string \<times> jsval) list" where
  "getter_values h this d [] a = []"
| "getter_values h this d ((key, fn) # entries) a =
    (case (if isCompositeSchema (Function fn) then slotted h this d key else Inr []) of
       Inl e \<Rightarrow> []
     | Inr els \<Rightarrow>
        (case fn_call fn (getAttribute d key) els a of
           (value, a') \<Rightarrow> (key, value) # getter_values h this d entries a'))"

section \<open>Batching and notification\<close>

type_synonym state = "element_state \<times> world"

text \<open>\<^verbatim>\<open>#queue\<close>: schedule one microtask unless one is already pending.\<close>

definition queue :: "state \<Rightarrow> state" where
  "queue st =
    (case st of (this, w) \<Rightarrow>
       (this\<lparr>hash_queued := True\<rparr>,
        if \<not> hash_queued this then w\<lparr>microtasks := microtasks w @ [Notify]\<rparr> else w))"

text \<open>
  \<^verbatim>\<open>handleEvent\<close>. The second component tells whether the handler stopped the
  propagation of the event.
\<close>

definition handleEvent :: "event \<Rightarrow> state \<Rightarrow> state \<times> bool" where
  "handleEvent ev st =
    (if ev_type ev = ''slotchange'' then (queue st, False)
     else if ev_type ev = ''json-change''
     then (case ev_target ev of
             This \<Rightarrow> (st, False)
           | Foreign \<Rightarrow> (st, False)
           | Descendant \<Rightarrow> (queue st, True))
     else (st, False))"

text \<open>
  \<^verbatim>\<open>#notify\<close>, run in the state \<open>d\<close> of the document. The event it dispatches reaches
  the instance's own listener, which lets it through. If the accessor throws, the
  function is left before it has changed anything. The patches are those of \<open>diff\<close>,
  the diff on a stack without bound.
\<close>

definition notify :: "host \<Rightarrow> dom \<Rightarrow> state \<Rightarrow> error + state" where
  "notify h d st =
    (case st of (this, w) \<Rightarrow>
       (case (if hasAttribute d ''diff''
              then (case json_accessor h this d (heap_next w) of
                      Inl e \<Rightarrow> Inl e
                    | Inr (json, a') \<Rightarrow>
                       (case diff (hash_prev this) json '''' of
                          Inl e \<Rightarrow> Inl e
                        | Inr ps \<Rightarrow> Inr (Some ps, this\<lparr>hash_prev := json\<rparr>, w\<lparr>heap_next := a'\<rparr>)))
              else Inr (None, this, w)) of
          Inl e \<Rightarrow> Inl e
        | Inr (ps, this', w') \<Rightarrow>
           (let ev = \<lparr>ev_type = ''json-change'', ev_target = This, detail = ps\<rparr>;
                this'' = this'\<lparr>hash_queued := False\<rparr>;
                w'' = w'\<lparr>dispatched := dispatched w' @ [ev]\<rparr>
            in Inr (fst (handleEvent ev (this'', w''))))))"

text \<open>The callbacks through which the host reaches an instance.\<close>

datatype callback = AttributeChanged | Connected | HandleEvent event

definition attributeChangedCallback :: "state \<Rightarrow> state" where
  "attributeChangedCallback st = queue st"

definition connectedCallback :: "state \<Rightarrow> state" where
  "connectedCallback st = queue st"

fun invoke :: "callback \<Rightarrow> state \<Rightarrow> state" where
  "invoke AttributeChanged st = attributeChangedCallback st"
| "invoke Connected st = connectedCallback st"
| "invoke (HandleEvent ev) st = fst (handleEvent ev st)"

fun queues :: "callback \<Rightarrow> bool" where
  "queues AttributeChanged = True"
| "queues Connected = True"
| "queues (HandleEvent ev) =
    (ev_type ev = ''slotchange'' \<or> (ev_type ev = ''json-change'' \<and> ev_target ev = Descendant))"

text \<open>A microtask that throws is over; the queue goes on.\<close>

definition run_task :: "host \<Rightarrow> dom \<Rightarrow> task \<Rightarrow> state \<Rightarrow> state" where
  "run_task h d t st = (case notify h d st of Inl e \<Rightarrow> st | Inr st' \<Rightarrow> st')"

text \<open>
  Running the microtask queue until it is empty. A notification never schedules a
  microtask of its own, so the queue shrinks with every task.
\<close>

lemma microtasks_notify:
  "notify h d (this, w) = Inr st' \<Longrightarrow> microtasks (snd st') = microtasks w"
  by (auto simp: notify_def handleEvent_def Let_def split: if_splits sum.splits prod.splits)

lemma microtasks_run_task: "microtasks (snd (run_task h d t (this, w))) = microtasks w"
  by (auto simp: run_task_def microtasks_notify split: sum.splits)

function drain :: "host \<Rightarrow> dom \<Rightarrow> state \<Rightarrow> state" where
  "drain h d st =
    (case st of (this, w) \<Rightarrow>
       (case microtasks w of
          [] \<Rightarrow> st
        | t # ts \<Rightarrow> drain h d (run_task h d t (this, w\<lparr>microtasks := ts\<rparr>))))"
  by pat_completeness auto
termination
proof (relation "measure (\<lambda>(h, d, st). length (microtasks (snd st)))")
  fix h d and st :: state and this w t ts
  assume "(this, w) = st" "microtasks w = t # ts"
  then show "((h, d, run_task h d t (this, w\<lparr>microtasks := ts\<rparr>)), (h, d, st))
      \<in> measure (\<lambda>(h, d, st). length (microtasks (snd st)))"
    by (auto simp: microtasks_run_task)
qed simp

declare drain.simps [simp del]

text \<open>
  A host for the examples. Its conversion maps the empty string to 0 and a string of at
  most fifteen decimal digits to the integer it denotes, as \<^verbatim>\<open>Number\<close> does, and
  answers \<^verbatim>\<open>NaN\<close> on every other string; every key is a selector that matches the
  slot of that name.
\<close>

definition Number_of_digits :: "string \<Rightarrow> jsnum" where
  "Number_of_digits s =
    (if list_all (\<lambda>c. c \<in> set ''0123456789'') s \<and> length s \<le> 15
     then Finite (of_int (read_int s)) else NaN)"

definition example_host :: host where
  "example_host = \<lparr>Number = Number_of_digits, slot_selector = Some\<rparr>"



text \<open>
  A second host, with a selector parser that is not so forgiving. It accepts the names made
  of ASCII letters, digits, hyphens and underscores that begin with a letter or an
  underscore, all of which CSS reads as identifiers, and rejects every other name: the
  selector \<^verbatim>\<open>slot[name=a.b]\<close> does not parse.
\<close>

definition plain_name :: "string \<Rightarrow> bool" where
  "plain_name s =
    (s \<noteq> [] \<and>
     list_all (\<lambda>c. c \<in> set ''abcdefghijklmnopqrstuvwxyzABCDEFGHIJKLMNOPQRSTUVWXYZ0123456789-_'') s \<and>
     hd s \<notin> set ''0123456789-'')"

definition strict_host :: host where
  "strict_host =
    \<lparr>Number = Number_of_digits,
     slot_selector = (\<lambda>name. if plain_name name then Some name else None)\<rparr>"
text \<open>
  Every selector that the accessor will build for the compiled schema parses: the keys of
  the composite getters are empty (the bare selector \<^verbatim>\<open>slot\<close>) or accepted by the
  host's selector parser.
\<close>

definition selectors_parse :: "host \<Rightarrow> (string \<times> getter) list \<Rightarrow> bool" where
  "selectors_parse h entries =
    list_all (\<lambda>e. isCompositeSchema (Function (snd e)) \<longrightarrow>
                 fst e = [] \<or> slot_selector h (fst e) \<noteq> None) entries"

text \<open>Constructing \<open>n\<close> instances of one element type, one after the other.\<close>

fun construct_instances ::
  "host \<Rightarrow> (string \<times> schema_input) list \<Rightarrow> nat \<Rightarrow> world \<Rightarrow> error + element_state list \<times> world" where
  "construct_instances h class_schema 0 w = Inr ([], w)"
| "construct_instances h class_schema (Suc n) w =
    (case constructor h class_schema w of
       Inl e \<Rightarrow> Inl e
     | Inr (this, w') \<Rightarrow>
        (case construct_instances h class_schema n w' of
           Inl e \<Rightarrow> Inl e
         | Inr (others, w'') \<Rightarrow> Inr (this # others, w'')))"

section \<open>Properties of the diff\<close>

subsection \<open>Path segments\<close>

lemma replace_all_Nil: "replace_all c r [] = []"
  by (simp add: replace_all_def)

lemma replace_all_Cons: "replace_all c r (x # s) = (if x = c then r else [x]) @ replace_all c r s"
  by (simp add: replace_all_def)

lemma replace_all_append: "replace_all c r (s @ t) = replace_all c r s @ replace_all c r t"
  by (simp add: replace_all_def)

lemma two_passes_escape:
  "replace_all CHR ''/'' ''~1'' (replace_all CHR ''~'' ''~0'' s) = escape_segment s"
proof (induction s)
  case Nil
  show ?case by (simp add: replace_all_Nil escape_segment_def)
next
  case (Cons x s)
  have "replace_all CHR ''/'' ''~1'' (replace_all CHR ''~'' ''~0'' (x # s)) =
        replace_all CHR ''/'' ''~1'' (if x = CHR ''~'' then ''~0'' else [x])
          @ replace_all CHR ''/'' ''~1'' (replace_all CHR ''~'' ''~0'' s)"
    by (simp only: replace_all_Cons replace_all_append)
  also have "replace_all CHR ''/'' ''~1'' (if x = CHR ''~'' then ''~0'' else [x]) =
        (if x = CHR ''~'' then ''~0'' else if x = CHR ''/'' then ''~1'' else [x])"
    by (simp add: replace_all_Cons replace_all_Nil)
  finally show ?case
    using Cons.IH by (simp add: escape_segment_def)
qed

text \<open>
  C5. The segment that \<^verbatim>\<open>append\<close> adds to a path is a \<^verbatim>\<open>/\<close> followed by the key
  with every \<^verbatim>\<open>~\<close> written \<^verbatim>\<open>~0\<close> and every \<^verbatim>\<open>/\<close> written \<^verbatim>\<open>~1\<close>; the
  key \<^verbatim>\<open>a/b~c\<close> under the empty prefix gives \<^verbatim>\<open>/a~1b~0c\<close>.
\<close>

theorem append_escapes_segment:
  "append_path path prop = path @ ''/'' @ escape_segment prop \<and>
   append_path '''' ''a/b~c'' = ''/a~1b~0c''"
  by (simp add: append_path_def two_passes_escape) (simp add: escape_segment_def)

subsection \<open>Totality\<close>

lemma keys_container: "\<not> isScalar x \<Longrightarrow> \<exists>ks. keys x = Inr ks"
  by (cases x) (auto simp: isScalar_def keys_def)

lemma get_container: "\<not> isScalar x \<Longrightarrow> \<exists>v. get x k = Inr v"
  by (cases x) (auto simp: isScalar_def split: option.splits)

lemma diff_deletions_container:
  "\<not> isScalar next \<Longrightarrow> \<exists>ps. diff_deletions next path props patches = Inr ps"
proof (induction props arbitrary: patches)
  case Nil
  then show ?case by simp
next
  case (Cons k props)
  from get_container [OF Cons.prems, of k] obtain v where "get next k = Inr v" ..
  with Cons show ?case by simp
qed

lemma diff_returns:
  "\<exists>ps. diff prev next path = Inr ps"
  "\<not> isScalar prev \<longrightarrow> \<not> isScalar next \<longrightarrow>
     (\<exists>ps. diff_changes prev next path props patches = Inr ps)"
proof (induction prev "next" path and prev "next" path props patches
    rule: diff_diff_changes.induct)
  case (1 prev "next" path)
  show ?case
  proof (cases "strict_eq prev next \<or> isScalar prev \<or> isScalar next")
    case True
    then show ?thesis by (auto simp: diff.simps [of prev "next" path])
  next
    case False
    then obtain ks ks' where k: "keys next = Inr ks" "keys prev = Inr ks'"
      using keys_container by blast
    from False k 1 obtain ps where "diff_changes prev next path ks [] = Inr ps" by auto
    with False k show ?thesis
      using diff_deletions_container [of "next" path ks' ps]
      by (auto simp: diff.simps [of prev "next" path])
  qed
next
  case (2 prev "next" path patches)
  then show ?case by simp
next
  case (3 prev "next" path k props patches)
  show ?case
  proof (intro impI)
    assume s: "\<not> isScalar prev" "\<not> isScalar next"
    obtain p n where g: "get prev k = Inr p" "get next k = Inr n"
      using get_container s by blast
    consider (add) "typeof p = ''undefined''"
      | (rec) "typeof p \<noteq> ''undefined''" "typeof n = ''object'' \<and> typeof p = ''object''"
      | (rep) "typeof p \<noteq> ''undefined''" "\<not> (typeof n = ''object'' \<and> typeof p = ''object'')"
          "\<not> strict_eq p n"
      | (same) "typeof p \<noteq> ''undefined''" "\<not> (typeof n = ''object'' \<and> typeof p = ''object'')"
          "\<not> \<not> strict_eq p n"
      by blast
    then show "\<exists>ps. diff_changes prev next path (k # props) patches = Inr ps"
    proof cases
      case add
      with "3.IH"(1) [OF refl g add] s g show ?thesis by (auto simp: Let_def)
    next
      case rec
      from "3.IH"(2) [OF refl g rec] obtain sub where sub: "diff p n (append_path path k) = Inr sub" ..
      with "3.IH"(3) [OF refl g rec sub] rec s g show ?thesis by (auto simp: Let_def)
    next
      case rep
      with "3.IH"(4) [OF refl g rep] s g show ?thesis by (auto simp: Let_def)
    next
      case same
      with "3.IH"(5) [OF refl g same] s g show ?thesis by (auto simp: Let_def)
    qed
  qed
qed

subsection \<open>Index strings\<close>

lemma digit_char_inj: "a < 10 \<Longrightarrow> b < 10 \<Longrightarrow> digit_char a = digit_char b \<Longrightarrow> a = b"
proof -
  assume a: "a < 10" and b: "b < 10" and e: "digit_char a = digit_char b"
  have d: "distinct ''0123456789''" by simp
  have "length ''0123456789'' = 10" by simp
  with a b e d show ?thesis
    unfolding digit_char_def by (metis nth_eq_iff_index_eq)
qed

lemma digit_char_digit: "d < 10 \<Longrightarrow> digit_char d \<in> set ''0123456789''"
proof -
  assume "d < 10"
  then have "d < length ''0123456789''" by simp
  then show ?thesis unfolding digit_char_def by (rule nth_mem)
qed

lemma show_nat_not_Nil: "show_nat n \<noteq> []"
  by (subst show_nat.simps) simp

lemma show_nat_digits: "set (show_nat n) \<subseteq> set ''0123456789''"
proof (induction n rule: show_nat.induct)
  case (1 n)
  show ?case
  proof (cases "n < 10")
    case True
    then show ?thesis using digit_char_digit [of n] by (subst show_nat.simps) simp
  next
    case False
    have "n mod 10 < 10" by simp
    with False 1 show ?thesis
      using digit_char_digit [of "n mod 10"] by (subst show_nat.simps) simp
  qed
qed

lemma show_nat_inj: "show_nat m = show_nat n \<Longrightarrow> m = n"
proof (induction m arbitrary: n rule: show_nat.induct)
  case (1 m)
  show ?case
  proof (cases "m < 10")
    case m: True
    show ?thesis
    proof (cases "n < 10")
      case True
      with m "1.prems" show ?thesis
        by (simp add: show_nat.simps [of m] show_nat.simps [of n] digit_char_inj)
    next
      case False
      with m "1.prems" show ?thesis
        using show_nat_not_Nil [of "n div 10"]
        by (simp add: show_nat.simps [of m] show_nat.simps [of n])
    qed
  next
    case m: False
    show ?thesis
    proof (cases "n < 10")
      case True
      with m "1.prems" show ?thesis
        using show_nat_not_Nil [of "m div 10"]
        by (simp add: show_nat.simps [of m] show_nat.simps [of n])
    next
      case False
      with m "1.prems" have e: "show_nat (m div 10) = show_nat (n div 10)"
        "digit_char (m mod 10) = digit_char (n mod 10)"
        by (simp_all add: show_nat.simps [of m] show_nat.simps [of n])
      from "1.IH" [OF m e(1)] have "m div 10 = n div 10" .
      moreover from e(2) have "m mod 10 = n mod 10"
        by (intro digit_char_inj) simp_all
      ultimately show ?thesis by (metis div_mult_mod_eq)
    qed
  qed
qed

subsection \<open>Equal inputs\<close>

lemma distinct_index_keys: "distinct (map show_nat [0..<n])"
  by (simp add: distinct_map inj_on_def show_nat_inj)

lemma get_Arr_index: "i < length xs \<Longrightarrow> get (Arr r xs) (show_nat i) = Inr (xs ! i)"
proof -
  assume i: "i < length xs"
  have "map_of (zip (map show_nat [0..<length xs]) xs) (map show_nat [0..<length xs] ! i)
          = Some (xs ! i)"
    by (rule map_of_zip_nth) (simp_all add: distinct_index_keys i)
  with i show ?thesis by simp
qed

lemma get_Obj_own: "map_of kvs k = Some v \<Longrightarrow> get (Obj r kvs) k = Inr v"
  by simp

lemma is_json_not_undefined: "is_json x \<Longrightarrow> typeof x \<noteq> ''undefined''"
  by (cases x) auto

lemma is_json_strict_eq_refl: "is_json x \<Longrightarrow> strict_eq x x"
  by (cases x) (auto split: jsnum.splits)

lemma deep_equal_scalar:
  "is_json a \<Longrightarrow> is_json b \<Longrightarrow> deep_equal a b \<Longrightarrow> isScalar a \<or> isScalar b \<Longrightarrow> strict_eq a b"
  by (cases a; cases b) (auto simp: isScalar_def split: jsnum.splits)

lemma deep_equal_not_both_objects:
  "is_json a \<Longrightarrow> is_json b \<Longrightarrow> deep_equal a b \<Longrightarrow>
   \<not> (typeof b = ''object'' \<and> typeof a = ''object'') \<Longrightarrow> strict_eq a b"
  by (cases a; cases b) (auto split: jsnum.splits)

lemma deep_equal_members:
  assumes "is_json prev" "is_json next" "deep_equal prev next"
    and "\<not> isScalar prev" "\<not> isScalar next"
  shows "keys next = Inr ks \<Longrightarrow> k \<in> set ks \<Longrightarrow>
         \<exists>p n. get prev k = Inr p \<and> get next k = Inr n \<and> is_json p \<and> is_json n \<and> deep_equal p n"
    and "keys prev = Inr ks' \<Longrightarrow> k \<in> set ks' \<Longrightarrow>
         \<exists>n. get next k = Inr n \<and> typeof n \<noteq> ''undefined''"
proof -
  consider (arr) r xs r' ys where "prev = Arr r xs" "next = Arr r' ys"
    | (obj) r kvs r' kvs' where "prev = Obj r kvs" "next = Obj r' kvs'"
    using assms by (cases prev; cases "next") (auto simp: isScalar_def)
  then have
    "(keys next = Inr ks \<longrightarrow> k \<in> set ks \<longrightarrow>
       (\<exists>p n. get prev k = Inr p \<and> get next k = Inr n \<and> is_json p \<and> is_json n \<and> deep_equal p n)) \<and>
     (keys prev = Inr ks' \<longrightarrow> k \<in> set ks' \<longrightarrow>
       (\<exists>n. get next k = Inr n \<and> typeof n \<noteq> ''undefined''))"
  proof cases
    case arr
    from assms arr have len: "length xs = length ys"
      and eq: "\<And>i. i < length xs \<Longrightarrow> deep_equal (xs ! i) (ys ! i)"
      and js: "\<And>i. i < length xs \<Longrightarrow> is_json (xs ! i)" "\<And>i. i < length ys \<Longrightarrow> is_json (ys ! i)"
      by auto
    show ?thesis
    proof (intro conjI impI)
      assume "keys next = Inr ks" "k \<in> set ks"
      with arr obtain i where i: "i < length ys" "k = show_nat i"
        by (auto simp: keys_def)
      with len arr have "get prev k = Inr (xs ! i)" "get next k = Inr (ys ! i)"
        by (simp_all only: get_Arr_index)
      with i len eq js show "\<exists>p n. get prev k = Inr p \<and> get next k = Inr n \<and> is_json p \<and>
          is_json n \<and> deep_equal p n"
        by simp
    next
      assume "keys prev = Inr ks'" "k \<in> set ks'"
      with arr obtain i where i: "i < length xs" "k = show_nat i"
        by (auto simp: keys_def)
      with len arr have "get next k = Inr (ys ! i)"
        by (simp only: get_Arr_index)
      with i len js show "\<exists>n. get next k = Inr n \<and> typeof n \<noteq> ''undefined''"
        by (simp add: is_json_not_undefined)
    qed
  next
    case obj
    from assms obj have ks: "set (map fst kvs) = set (map fst kvs')"
      and eq: "\<And>kv. kv \<in> set kvs \<Longrightarrow>
          (case map_of kvs' (fst kv) of None \<Rightarrow> False | Some v' \<Rightarrow> deep_equal (snd kv) v')"
      and d: "distinct (map fst kvs)" "distinct (map fst kvs')"
      and js: "\<And>kv. kv \<in> set kvs \<Longrightarrow> is_json (snd kv)" "\<And>kv. kv \<in> set kvs' \<Longrightarrow> is_json (snd kv)"
      by auto
    have member: "\<exists>p n. map_of kvs k = Some p \<and> map_of kvs' k = Some n \<and> is_json p \<and>
        is_json n \<and> deep_equal p n" if "k \<in> set (map fst kvs)"
    proof -
      from that obtain p where p: "(k, p) \<in> set kvs" by auto
      with d have mp: "map_of kvs k = Some p" by simp
      from eq [OF p] obtain n where n: "map_of kvs' k = Some n" "deep_equal p n"
        by (auto split: option.splits)
      from n(1) have "(k, n) \<in> set kvs'" by (rule map_of_SomeD)
      with js p mp n show ?thesis by fastforce
    qed
    show ?thesis
    proof (intro conjI impI)
      assume "keys next = Inr ks" "k \<in> set ks"
      with obj ks have "k \<in> set (map fst kvs)" by (auto simp: keys_def)
      from member [OF this] obj show "\<exists>p n. get prev k = Inr p \<and> get next k = Inr n \<and>
          is_json p \<and> is_json n \<and> deep_equal p n"
        by auto
    next
      assume "keys prev = Inr ks'" "k \<in> set ks'"
      with obj have "k \<in> set (map fst kvs)" by (auto simp: keys_def)
      from member [OF this] obj show "\<exists>n. get next k = Inr n \<and> typeof n \<noteq> ''undefined''"
        by (auto simp: is_json_not_undefined)
    qed
  qed
  then show "keys next = Inr ks \<Longrightarrow> k \<in> set ks \<Longrightarrow>
         \<exists>p n. get prev k = Inr p \<and> get next k = Inr n \<and> is_json p \<and> is_json n \<and> deep_equal p n"
    and "keys prev = Inr ks' \<Longrightarrow> k \<in> set ks' \<Longrightarrow>
         \<exists>n. get next k = Inr n \<and> typeof n \<noteq> ''undefined''"
    by blast+
qed

lemma diff_deletions_none:
  "(\<And>k. k \<in> set props \<Longrightarrow> \<exists>n. get next k = Inr n \<and> typeof n \<noteq> ''undefined'') \<Longrightarrow>
   diff_deletions next path props patches = Inr patches"
proof (induction props)
  case Nil
  show ?case by simp
next
  case (Cons k props)
  from Cons.prems [of k] obtain n where "get next k = Inr n" "typeof n \<noteq> ''undefined''"
    by auto
  moreover have "diff_deletions next path props patches = Inr patches"
    by (rule Cons.IH) (simp add: Cons.prems)
  ultimately show ?case by simp
qed

lemma diff_deep_equal:
  "is_json prev \<longrightarrow> is_json next \<longrightarrow> deep_equal prev next \<longrightarrow> diff prev next path = Inr []"
  "(\<forall>k \<in> set props. \<exists>p n. get prev k = Inr p \<and> get next k = Inr n \<and> is_json p \<and> is_json n \<and>
       deep_equal p n) \<longrightarrow>
   diff_changes prev next path props patches = Inr patches"
proof (induction prev "next" path and prev "next" path props patches
    rule: diff_diff_changes.induct)
  case (1 prev "next" path)
  show ?case
  proof (intro impI)
    assume j: "is_json prev" "is_json next" and e: "deep_equal prev next"
    show "diff prev next path = Inr []"
    proof (cases "strict_eq prev next")
      case True
      then show ?thesis by (simp add: diff.simps [of prev "next" path])
    next
      case False
      with j e have c: "\<not> isScalar prev" "\<not> isScalar next"
        using deep_equal_scalar by blast+
      then obtain ks ks' where k: "keys next = Inr ks" "keys prev = Inr ks'"
        using keys_container by blast
      have "diff_changes prev next path ks [] = Inr []"
        using "1.IH" [of ks] False c k deep_equal_members(1) [OF j e c k(1)] by blast
      moreover have "diff_deletions next path ks' [] = Inr []"
        by (rule diff_deletions_none) (rule deep_equal_members(2) [OF j e c k(2)])
      ultimately show ?thesis
        using False c k by (simp add: diff.simps [of prev "next" path])
    qed
  qed
next
  case (2 prev "next" path patches)
  show ?case by simp
next
  case (3 prev "next" path k props patches)
  show ?case
  proof (intro impI)
    assume a: "\<forall>k \<in> set (k # props). \<exists>p n. get prev k = Inr p \<and> get next k = Inr n \<and>
        is_json p \<and> is_json n \<and> deep_equal p n"
    then obtain p n where g: "get prev k = Inr p" "get next k = Inr n"
      and j: "is_json p" "is_json n" and e: "deep_equal p n"
      by auto
    from a have rest: "\<forall>k \<in> set props. \<exists>p n. get prev k = Inr p \<and> get next k = Inr n \<and>
        is_json p \<and> is_json n \<and> deep_equal p n"
      by simp
    from j have u: "typeof p \<noteq> ''undefined''" by (simp add: is_json_not_undefined)
    show "diff_changes prev next path (k # props) patches = Inr patches"
    proof (cases "typeof n = ''object'' \<and> typeof p = ''object''")
      case True
      from "3.IH"(2) [OF refl g u True] j e have sub: "diff p n (append_path path k) = Inr []"
        by blast
      from "3.IH"(3) [OF refl g u True sub] rest
      have "diff_changes prev next path props patches = Inr patches" by simp
      with g u True sub show ?thesis by (simp add: Let_def)
    next
      case False
      with j e have s: "\<not> \<not> strict_eq p n" using deep_equal_not_both_objects by blast
      from "3.IH"(5) [OF refl g u False s] rest
      have "diff_changes prev next path props patches = Inr patches" by simp
      with g u False s show ?thesis by (auto simp: Let_def)
    qed
  qed
qed

text \<open>
  C2. For a JSON value \<open>x\<close>, \<^verbatim>\<open>diff(x, x)\<close> is the empty patch list, and so is
  \<^verbatim>\<open>diff(x, y)\<close> for every JSON value \<open>y\<close> deep-equal to \<open>x\<close>: the same
  reference passed twice and a structurally equal copy both give no patch.
\<close>

theorem diff_identity:
  "is_json x \<Longrightarrow>
   diff x x path = Inr [] \<and>
   (\<forall>y. is_json y \<and> deep_equal x y \<longrightarrow> diff x y path = Inr [])"
  using diff_deep_equal(1) [of x _ path] is_json_strict_eq_refl [of x]
  by (simp add: diff.simps [of x x path])

theorem diff_identity_witness:
  "is_json (Obj 0 [(''a'', Arr 1 [Num (Finite 1), Null]), (''b'', Str ''s'')]) \<and>
   is_json (Obj 2 [(''b'', Str ''s''), (''a'', Arr 3 [Num (Finite 1), Null])]) \<and>
   deep_equal (Obj 0 [(''a'', Arr 1 [Num (Finite 1), Null]), (''b'', Str ''s'')])
              (Obj 2 [(''b'', Str ''s''), (''a'', Arr 3 [Num (Finite 1), Null])]) \<and>
   diff (Obj 0 [(''a'', Arr 1 [Num (Finite 1), Null]), (''b'', Str ''s'')])
        (Obj 0 [(''a'', Arr 1 [Num (Finite 1), Null]), (''b'', Str ''s'')]) '''' = Inr [] \<and>
   diff (Obj 0 [(''a'', Arr 1 [Num (Finite 1), Null]), (''b'', Str ''s'')])
        (Obj 2 [(''b'', Str ''s''), (''a'', Arr 3 [Num (Finite 1), Null])]) '''' = Inr []"
proof -
  have j: "is_json (Obj 0 [(''a'', Arr 1 [Num (Finite 1), Null]), (''b'', Str ''s'')])"
    "is_json (Obj 2 [(''b'', Str ''s''), (''a'', Arr 3 [Num (Finite 1), Null])])"
    by simp_all
  have e: "deep_equal (Obj 0 [(''a'', Arr 1 [Num (Finite 1), Null]), (''b'', Str ''s'')])
                      (Obj 2 [(''b'', Str ''s''), (''a'', Arr 3 [Num (Finite 1), Null])])"
    by (auto simp: upt_rec)
  from diff_identity [OF j(1), of "''''"] j e show ?thesis by blast
qed

subsection \<open>Errors of the diff\<close>













subsection \<open>Removing an array element\<close>

lemma digits_not_inherited:
  assumes "set s \<subseteq> set ''0123456789''" "s \<noteq> []"
  shows "s \<noteq> ''length''" "s \<noteq> ''__proto__''" "s \<notin> set Array_prototype_names"
    "s \<notin> set Object_prototype_names"
proof -
  from assms have h: "hd s \<in> set ''0123456789''" by (cases s) auto
  from h show "s \<noteq> ''length''" by auto
  from h show "s \<noteq> ''__proto__''" by auto
  have "\<forall>t \<in> set Array_prototype_names. hd t \<notin> set ''0123456789''"
    by (simp add: Array_prototype_names_def)
  with h show "s \<notin> set Array_prototype_names" by blast
  have "\<forall>t \<in> set Object_prototype_names. hd t \<notin> set ''0123456789''"
    by (simp add: Object_prototype_names_def)
  with h show "s \<notin> set Object_prototype_names" by blast
qed

lemma get_Arr_beyond: "length xs \<le> j \<Longrightarrow> get (Arr r xs) (show_nat j) = Inr Undefined"
proof -
  assume j: "length xs \<le> j"
  have "show_nat j \<notin> set (map show_nat [0..<length xs])"
    using j show_nat_inj by fastforce
  then have none: "map_of (zip (map show_nat [0..<length xs]) xs) (show_nat j) = None"
    by (simp add: map_of_zip_is_None)
  have "get_ArrayPrototype (show_nat j) = Undefined"
    using digits_not_inherited [OF show_nat_digits show_nat_not_Nil, of j]
    by (simp add: get_ArrayPrototype_def get_ObjectPrototype_def)
  moreover have "show_nat j \<noteq> ''length''" "show_nat j \<noteq> ''__proto__''"
    using digits_not_inherited [OF show_nat_digits show_nat_not_Nil, of j] by blast+
  ultimately show ?thesis
    by (simp only: get.simps none option.case if_False)
qed

lemma diff_scalar:
  "isScalar a \<or> isScalar b \<Longrightarrow> diff a b p = Inr (if strict_eq a b then [] else [Replace p b])"
  by (simp add: diff.simps [of a b p])

lemma diff_changes_step:
  assumes "get prev k = Inr p" and "get next k = Inr n" and "p \<noteq> Undefined"
    and "diff p n (append_path path k) = Inr sub"
  shows "diff_changes prev next path (k # props) patches =
    diff_changes prev next path props (patches @ sub)"
proof -
  from assms(3) have u: "typeof p \<noteq> ''undefined''" by (cases p) auto
  show ?thesis
  proof (cases "typeof n = ''object'' \<and> typeof p = ''object''")
    case True
    with assms u show ?thesis by (simp add: Let_def del: get.simps)
  next
    case False
    then have "isScalar p \<or> isScalar n" by (auto simp: isScalar_def)
    from diff_scalar [OF this, of "append_path path k"] assms(4)
    have "sub = (if strict_eq p n then [] else [Replace (append_path path k) n])" by simp
    with assms(1,2) u False show ?thesis by (auto simp add: Let_def simp del: get.simps)
  qed
qed

lemma diff_changes_arrays:
  "\<forall>j \<in> set js. j < length xs \<and> j < length ys \<and> xs ! j \<noteq> Undefined \<Longrightarrow>
   diff_changes (Arr r xs) (Arr r' ys) path (map show_nat js) patches =
     Inr (patches @ concat (map (\<lambda>j. projr (diff (xs ! j) (ys ! j) (append_path path (show_nat j)))) js))"
proof (induction js arbitrary: patches)
  case Nil
  show ?case by simp
next
  case (Cons j js)
  then have j: "j < length xs" "j < length ys" "xs ! j \<noteq> Undefined" by auto
  from j have g: "get (Arr r xs) (show_nat j) = Inr (xs ! j)"
    "get (Arr r' ys) (show_nat j) = Inr (ys ! j)"
    by (simp_all only: get_Arr_index)
  from diff_returns(1) [of "xs ! j" "ys ! j" "append_path path (show_nat j)"] obtain sub where
    sub: "diff (xs ! j) (ys ! j) (append_path path (show_nat j)) = Inr sub" ..
  have "diff_changes (Arr r xs) (Arr r' ys) path (show_nat j # map show_nat js) patches =
      diff_changes (Arr r xs) (Arr r' ys) path (map show_nat js) (patches @ sub)"
    using g j(3) sub by (rule diff_changes_step)
  also have "\<dots> = Inr ((patches @ sub) @
      concat (map (\<lambda>j. projr (diff (xs ! j) (ys ! j) (append_path path (show_nat j)))) js))"
    using Cons.prems by (intro Cons.IH) simp
  finally show ?case using sub by simp
qed

lemma diff_deletions_defined:
  assumes ys: "\<forall>y \<in> set ys. y \<noteq> Undefined"
  shows "diff_deletions (Arr r' ys) path (map show_nat js) patches =
      Inr (patches @ map (\<lambda>j. Remove (append_path path (show_nat j)))
                        (filter (\<lambda>j. length ys \<le> j) js))"
proof (induction js arbitrary: patches)
  case Nil
  show ?case by simp
next
  case (Cons j js)
  show ?case
  proof (cases "j < length ys")
    case True
    then have "get (Arr r' ys) (show_nat j) = Inr (ys ! j)" by (simp only: get_Arr_index)
    moreover from True ys have "ys ! j \<noteq> Undefined" by simp
    then have "typeof (ys ! j) \<noteq> ''undefined''" by (cases "ys ! j") auto
    ultimately show ?thesis using True Cons.IH [of patches] by (simp del: get.simps)
  next
    case False
    then have "get (Arr r' ys) (show_nat j) = Inr Undefined" by (simp only: get_Arr_beyond)
    then show ?thesis
      using False Cons.IH [of "patches @ [Remove (append_path path (show_nat j))]"]
      by (simp del: get.simps)
  qed
qed

lemma remove_at_nth:
  "i < length xs \<Longrightarrow> j < length xs - 1 \<Longrightarrow>
   remove_at i xs ! j = (if j < i then xs ! j else xs ! Suc j)"
  by (auto simp: remove_at_def nth_append min_def)

lemma length_remove_at: "i < length xs \<Longrightarrow> length (remove_at i xs) = length xs - 1"
  by (auto simp: remove_at_def)

lemma set_remove_at: "set (remove_at i xs) \<subseteq> set xs"
  unfolding remove_at_def using set_take_subset [of i xs] set_drop_subset [of "Suc i" xs] by auto

lemma strict_eq_refl: "x \<noteq> Num NaN \<Longrightarrow> strict_eq x x"
  by (cases x) auto

lemma diff_same: "x \<noteq> Num NaN \<Longrightarrow> diff x x p = Inr []"
  by (simp add: diff.simps [of x x p] strict_eq_refl)

lemma same_or_copy_defined: "same_or_copy x y \<Longrightarrow> x \<noteq> Undefined \<Longrightarrow> y \<noteq> Undefined"
  by (auto simp: same_or_copy_def)

lemma diff_same_or_copy: "same_or_copy x y \<Longrightarrow> x \<noteq> Num NaN \<Longrightarrow> diff x y p = Inr []"
  using diff_deep_equal(1) [of x y p] by (auto simp: same_or_copy_def diff_same)

lemma cascade_concat:
  assumes "i \<le> n" and "\<forall>j < i. diff (xs ! j) (ys ! j) (append_path path (show_nat j)) = Inr []"
  shows "concat (map (\<lambda>j. projr (diff (xs ! j) (ys ! j) (append_path path (show_nat j)))) [0..<n]) =
         concat (map (\<lambda>j. projr (diff (xs ! j) (ys ! j) (append_path path (show_nat j)))) [i..<n])"
proof -
  have split: "[0..<n] = [0..<i] @ [i..<n]"
  proof -
    from assms(1) have "i + (n - i) = n" by simp
    with upt_add_eq_append [of 0 i "n - i"] show ?thesis by simp
  qed
  have low: "map (\<lambda>j. projr (diff (xs ! j) (ys ! j) (append_path path (show_nat j)))) [0..<i] =
      map (\<lambda>j. []) [0..<i]"
    using assms(2) by (intro map_cong refl) simp
  show ?thesis by (simp only: split map_append concat_append low) simp
qed

lemma diff_remove_at:
  assumes xs: "\<forall>x \<in> set xs. x \<noteq> Undefined \<and> x \<noteq> Num NaN" and i: "i < length xs" and r: "r \<noteq> r'"
    and ys: "list_all2 same_or_copy (remove_at i xs) ys"
  shows "diff (Arr r xs) (Arr r' ys) path =
      Inr (concat (map (\<lambda>j. projr (diff (xs ! j) (ys ! j) (append_path path (show_nat j))))
                     [i..<length xs - 1])
           @ [Remove (append_path path (show_nat (length xs - 1)))])"
proof -
  let ?n = "length xs - 1"
  from ys i have len: "length ys = ?n"
    using list_all2_lengthD [OF ys] by (simp add: length_remove_at)
  have rel: "same_or_copy (remove_at i xs ! j) (ys ! j)" if "j < ?n" for j
    using list_all2_nthD [OF ys, of j] that i by (simp add: length_remove_at)
  have mem: "remove_at i xs ! j \<in> set xs" if "j < ?n" for j
  proof -
    from that i have "remove_at i xs ! j \<in> set (remove_at i xs)"
      by (intro nth_mem) (simp add: length_remove_at)
    with set_remove_at [of i xs] show ?thesis by blast
  qed
  have ydef: "\<forall>y \<in> set ys. y \<noteq> Undefined"
  proof
    fix y assume "y \<in> set ys"
    then obtain j where j: "j < ?n" "y = ys ! j" using len by (metis in_set_conv_nth)
    from mem [OF j(1)] xs have "remove_at i xs ! j \<noteq> Undefined" by blast
    with rel [OF j(1)] have "ys ! j \<noteq> Undefined" by (rule same_or_copy_defined)
    with j(2) show "y \<noteq> Undefined" by simp
  qed
  have ch: "diff_changes (Arr r xs) (Arr r' ys) path (map show_nat [0..<?n]) [] =
      Inr ([] @ concat (map (\<lambda>j. projr (diff (xs ! j) (ys ! j) (append_path path (show_nat j))))
                   [0..<?n]))"
    using len i xs by (intro diff_changes_arrays) auto
  have upt: "[0..<length xs] = [0..<?n] @ [?n]"
    using i by (metis Suc_diff_1 length_greater_0_conv list.size(3) not_less0 upt_Suc_append zero_le)
  have del: "filter (\<lambda>j. length ys \<le> j) [0..<length xs] = [?n]"
    by (simp only: upt filter_append len) (auto simp: filter_empty_conv)
  have dl: "diff_deletions (Arr r' ys) path (map show_nat [0..<length xs]) ps =
      Inr (ps @ [Remove (append_path path (show_nat ?n))])" for ps
    using diff_deletions_defined [OF ydef, of r' path "[0..<length xs]" ps]
    by (simp only: del) simp
  have low: "\<forall>j < i. diff (xs ! j) (ys ! j) (append_path path (show_nat j)) = Inr []"
  proof (intro allI impI)
    fix j assume j: "j < i"
    with i have jn: "j < ?n" "j < length xs" by simp_all
    with i j have e: "remove_at i xs ! j = xs ! j" by (simp add: remove_at_nth)
    from jn xs have "xs ! j \<noteq> Num NaN" by simp
    with rel [OF jn(1)] e show "diff (xs ! j) (ys ! j) (append_path path (show_nat j)) = Inr []"
      by (simp add: diff_same_or_copy)
  qed
  from i have "i \<le> ?n" by simp
  from cascade_concat [OF this low]
  show ?thesis
    using r ch dl by (simp add: diff.simps [of "Arr r xs"] isScalar_def keys_def len)
qed

text \<open>
  C3, as the code has it. \<^verbatim>\<open>diff([1,2,3], [2,3])\<close> is the list
  \<^verbatim>\<open>replace /0 2, replace /1 3, remove /2\<close> (the first instance proved below). More
  generally, take any array \<open>xs\<close> none of whose elements is \<^verbatim>\<open>undefined\<close> or
  \<^verbatim>\<open>NaN\<close> (every JSON array is one) and let \<open>ys\<close> be the array without the element at
  index \<open>i\<close>, each remaining element kept as it is or as a deep-equal copy. From index
  \<open>i\<close> on, \<open>ys\<close> holds at index \<open>j\<close> the old successor \<open>xs[j+1]\<close>. The patch list
  is, in index order, for each index \<open>j\<close> from \<open>i\<close> to the last but one, the patches of
  \<^verbatim>\<open>diff(xs[j], ys[j])\<close> at the path of index \<open>j\<close>, followed by one \<^verbatim>\<open>remove\<close> of
  the old last index. Where one of the two values is a scalar those patches are a single
  \<^verbatim>\<open>replace\<close> with the successor's value, or nothing when the two are strictly equal;
  where both are containers they are the nested patches of the two containers, which can be
  any number of operations of any kind.
\<close>

theorem cascading_removal:
  assumes "list_all (\<lambda>x. x \<noteq> Undefined \<and> x \<noteq> Num NaN) xs" and "i < length xs" and "r \<noteq> r'"
    and "list_all2 same_or_copy (remove_at i xs) ys"
  shows "(\<exists>subs.
      list_all2 (\<lambda>j sub. diff (xs ! j) (ys ! j) (append_path path (show_nat j)) = Inr sub)
        [i..<length xs - 1] subs \<and>
      diff (Arr r xs) (Arr r' ys) path =
        Inr (concat subs @ [Remove (append_path path (show_nat (length xs - 1)))])) \<and>
    list_all2 (\<lambda>j y. same_or_copy (xs ! Suc j) y) [i..<length xs - 1] (drop i ys) \<and>
    (isScalar a \<or> isScalar b \<longrightarrow>
      diff a b p = Inr (if strict_eq a b then [] else [Replace p b]))"
proof (intro conjI exI impI)
  let ?subs = "map (\<lambda>j. projr (diff (xs ! j) (ys ! j) (append_path path (show_nat j))))
      [i..<length xs - 1]"
  show "list_all2 (\<lambda>j sub. diff (xs ! j) (ys ! j) (append_path path (show_nat j)) = Inr sub)
      [i..<length xs - 1] ?subs"
  proof (simp only: list.rel_map, rule list.rel_refl)
    fix j
    from diff_returns(1) [of "xs ! j" "ys ! j" "append_path path (show_nat j)"]
    show "diff (xs ! j) (ys ! j) (append_path path (show_nat j)) =
        Inr (projr (diff (xs ! j) (ys ! j) (append_path path (show_nat j))))"
      by auto
  qed
  show "diff (Arr r xs) (Arr r' ys) path =
      Inr (concat ?subs @ [Remove (append_path path (show_nat (length xs - 1)))])"
    using assms diff_remove_at [of xs i r r' ys path] by (simp add: list_all_iff)
  from assms(4) have len: "length ys = length xs - 1"
    using list_all2_lengthD [OF assms(4)] assms(2) by (simp add: length_remove_at)
  show "list_all2 (\<lambda>j y. same_or_copy (xs ! Suc j) y) [i..<length xs - 1] (drop i ys)"
  proof (rule list_all2_all_nthI)
    show "length [i..<length xs - 1] = length (drop i ys)" by (simp add: len)
  next
    fix n assume "n < length [i..<length xs - 1]"
    then have n: "i + n < length xs - 1" by simp
    with assms(2) have "same_or_copy (remove_at i xs ! (i + n)) (ys ! (i + n))"
      using list_all2_nthD [OF assms(4), of "i + n"] by (simp add: length_remove_at)
    moreover from n assms(2) have "remove_at i xs ! (i + n) = xs ! Suc (i + n)"
      by (simp add: remove_at_nth)
    ultimately show "same_or_copy (xs ! Suc ([i..<length xs - 1] ! n)) (drop i ys ! n)"
      using n len by simp
  qed
  assume "isScalar a \<or> isScalar b"
  then show "diff a b p = Inr (if strict_eq a b then [] else [Replace p b])" by (rule diff_scalar)
qed

theorem cascading_removal_witness:
  "list_all (\<lambda>x. x \<noteq> Undefined \<and> x \<noteq> Num NaN) [Num (Finite 1), Num (Finite 2), Num (Finite 3)] \<and>
   (0::nat) < length [Num (Finite 1), Num (Finite 2), Num (Finite 3)] \<and> (0::nat) \<noteq> 1 \<and>
   list_all2 same_or_copy (remove_at 0 [Num (Finite 1), Num (Finite 2), Num (Finite 3)])
     [Num (Finite 2), Num (Finite 3)] \<and>
   diff (Arr 0 [Num (Finite 1), Num (Finite 2), Num (Finite 3)])
        (Arr 1 [Num (Finite 2), Num (Finite 3)]) '''' =
     Inr [Replace ''/0'' (Num (Finite 2)), Replace ''/1'' (Num (Finite 3)), Remove ''/2''] \<and>
   list_all (\<lambda>x. x \<noteq> Undefined \<and> x \<noteq> Num NaN)
     [Obj 2 [(''a'', Num (Finite 1))], Obj 3 [(''a'', Num (Finite 2))], Arr 4 [Null]] \<and>
   (0::nat) < length [Obj 2 [(''a'', Num (Finite 1))], Obj 3 [(''a'', Num (Finite 2))], Arr 4 [Null]] \<and>
   list_all2 same_or_copy
     (remove_at 0 [Obj 2 [(''a'', Num (Finite 1))], Obj 3 [(''a'', Num (Finite 2))], Arr 4 [Null]])
     [Obj 5 [(''a'', Num (Finite 2))], Arr 6 [Null]] \<and>
   diff (Arr 0 [Obj 2 [(''a'', Num (Finite 1))], Obj 3 [(''a'', Num (Finite 2))], Arr 4 [Null]])
        (Arr 1 [Obj 5 [(''a'', Num (Finite 2))], Arr 6 [Null]]) '''' =
     Inr [Replace ''/0/a'' (Num (Finite 2)), Add ''/1/0'' Null, Remove ''/1/a'', Remove ''/2'']"
proof -
  let ?xs = "[Num (Finite 1), Num (Finite 2), Num (Finite 3)]"
  let ?xs' = "[Num (Finite 2), Num (Finite 3)]"
  let ?ys = "[Obj 2 [(''a'', Num (Finite 1))], Obj 3 [(''a'', Num (Finite 2))], Arr 4 [Null]]"
  let ?ys' = "[Obj 5 [(''a'', Num (Finite 2))], Arr 6 [Null]]"
  have h: "list_all (\<lambda>x. x \<noteq> Undefined \<and> x \<noteq> Num NaN) ?xs" by simp
  have h': "list_all (\<lambda>x. x \<noteq> Undefined \<and> x \<noteq> Num NaN) ?ys" by simp
  have l: "(0::nat) < length ?xs" by simp
  have l': "(0::nat) < length ?ys" by simp
  have r: "(0::nat) \<noteq> 1" by simp
  have c: "list_all2 same_or_copy (remove_at 0 ?xs) ?xs'"
    by (simp add: remove_at_def same_or_copy_def)
  have c': "list_all2 same_or_copy (remove_at 0 ?ys) ?ys'"
    by (simp add: remove_at_def same_or_copy_def)
  have u: "[0..<2] = [0, Suc 0]" by (simp add: upt_rec)
  have p: "append_path '''' (show_nat 0) = ''/0''" "append_path '''' (show_nat (Suc 0)) = ''/1''"
    "append_path '''' (show_nat (Suc (Suc 0))) = ''/2''"
    by (simp_all add: append_path_def replace_all_def show_nat.simps digit_char_def)
  have d: "diff (Num (Finite 1)) (Num (Finite 2)) ''/0'' = Inr [Replace ''/0'' (Num (Finite 2))]"
    "diff (Num (Finite 2)) (Num (Finite 3)) ''/1'' = Inr [Replace ''/1'' (Num (Finite 3))]"
    "diff (Obj 2 [(''a'', Num (Finite 1))]) (Obj 5 [(''a'', Num (Finite 2))]) ''/0'' =
       Inr [Replace ''/0/a'' (Num (Finite 2))]"
    "diff (Obj 3 [(''a'', Num (Finite 2))]) (Arr 6 [Null]) ''/1'' =
       Inr [Add ''/1/0'' Null, Remove ''/1/a'']"
    by code_simp+
  from cascading_removal [OF h l r c, of "''''"] obtain subs where
    "list_all2 (\<lambda>j sub. diff (?xs ! j) (?xs' ! j) (append_path '''' (show_nat j)) = Inr sub)
       [0..<length ?xs - 1] subs"
    "diff (Arr 0 ?xs) (Arr 1 ?xs') '''' =
       Inr (concat subs @ [Remove (append_path '''' (show_nat (length ?xs - 1)))])"
    by blast
  then have one: "diff (Arr 0 ?xs) (Arr 1 ?xs') '''' =
      Inr [Replace ''/0'' (Num (Finite 2)), Replace ''/1'' (Num (Finite 3)), Remove ''/2'']"
    by (auto simp: u p d list_all2_Cons1)
  from cascading_removal [OF h' l' r c', of "''''"] obtain subs' where
    "list_all2 (\<lambda>j sub. diff (?ys ! j) (?ys' ! j) (append_path '''' (show_nat j)) = Inr sub)
       [0..<length ?ys - 1] subs'"
    "diff (Arr 0 ?ys) (Arr 1 ?ys') '''' =
       Inr (concat subs' @ [Remove (append_path '''' (show_nat (length ?ys - 1)))])"
    by blast
  then have two: "diff (Arr 0 ?ys) (Arr 1 ?ys') '''' =
      Inr [Replace ''/0/a'' (Num (Finite 2)), Add ''/1/0'' Null, Remove ''/1/a'', Remove ''/2'']"
    by (auto simp: u p d list_all2_Cons1)
  from one two h h' l l' r c c' show ?thesis by simp
qed

text \<open>
  The list announced for the general case, with a \<^verbatim>\<open>replace\<close> at every shifted index,
  is not what the code returns when two neighbours are equal: removing the first element
  of \<^verbatim>\<open>[1,1]\<close> yields the single operation \<^verbatim>\<open>remove /1\<close>.
\<close>

theorem cascading_removal_counterexample:
  "diff (Arr 0 [Num (Finite 1), Num (Finite 1)])
        (Arr 1 (remove_at 0 [Num (Finite 1), Num (Finite 1)])) '''' = Inr [Remove ''/1''] \<and>
   cascade_as_specified '''' [Num (Finite 1), Num (Finite 1)] 0 =
     [Replace ''/0'' (Num (Finite 1)), Remove ''/1''] \<and>
   diff (Arr 0 [Num (Finite 1), Num (Finite 1)])
        (Arr 1 (remove_at 0 [Num (Finite 1), Num (Finite 1)])) '''' \<noteq>
     Inr (cascade_as_specified '''' [Num (Finite 1), Num (Finite 1)] 0)"
  by code_simp

subsection \<open>Applying the patches of a diff\<close>

text \<open>
  C1 fails on the code. When an array loses two or more trailing elements, the second
  loop of \<^verbatim>\<open>diff\<close> emits the \<^verbatim>\<open>remove\<close> operations in ascending index order, each
  with the index the element had before any removal. Applied in that order, the first
  removal shortens the array and a later one addresses an index that no longer exists:
  \<^verbatim>\<open>diff([1,2,3], [1])\<close> is \<^verbatim>\<open>remove /1, remove /2\<close>, and after \<^verbatim>\<open>remove /1\<close> the
  document \<^verbatim>\<open>[1,3]\<close> has no index 2. A second failure: an array and an object with no
  keys differ, yet their diff is empty.
\<close>

theorem diff_roundtrip_fails:
  "diff (Arr 0 [Num (Finite 1), Num (Finite 2), Num (Finite 3)]) (Arr 1 [Num (Finite 1)]) '''' =
     Inr [Remove ''/1'', Remove ''/2''] \<and>
   apply_patches [Remove ''/1'', Remove ''/2'']
     (Arr 0 [Num (Finite 1), Num (Finite 2), Num (Finite 3)]) = Inl NoSuchTarget \<and>
   diff (Arr 0 []) (Obj 1 []) '''' = Inr [] \<and>
   apply_patches [] (Arr 0 []) = Inr (Arr 0 []) \<and>
   \<not> deep_equal (Arr 0 []) (Obj 1 [])"
  by code_simp

section \<open>Properties of the element engine\<close>

subsection \<open>Enumerations\<close>

lemma compile_all_map: "compile_all h schemata = Inr fns \<Longrightarrow> map (compile h) schemata = map Inr fns"
  by (induction schemata arbitrary: fns) (auto split: sum.splits)

lemma Enum_call_first:
  "all_undefined pre value els a = Some a' \<Longrightarrow> fn_call fn value els a' = (r, a'') \<Longrightarrow>
   r \<noteq> Undefined \<Longrightarrow> Enum_call (pre @ fn # post) value els a = (r, a'')"
  by (induction pre arbitrary: a) (auto split: prod.splits if_splits)

lemma Enum_call_none:
  "all_undefined fns value els a = Some a' \<Longrightarrow> Enum_call fns value els a = (Undefined, a')"
  by (induction fns arbitrary: a) (auto split: prod.splits if_splits)

lemma Enum_call_cases:
  "(\<exists>a'. all_undefined fns value els a = Some a') \<or>
   (\<exists>pre fn post a' r a''. fns = pre @ fn # post \<and> all_undefined pre value els a = Some a' \<and>
      fn_call fn value els a' = (r, a'') \<and> r \<noteq> Undefined)"
proof (induction fns arbitrary: a)
  case Nil
  show ?case by simp
next
  case (Cons fn fns)
  obtain r b where c: "fn_call fn value els a = (r, b)" by (cases "fn_call fn value els a")
  show ?case
  proof (cases "r = Undefined")
    case False
    have "fn # fns = [] @ fn # fns \<and> all_undefined [] value els a = Some a" by simp
    with c False show ?thesis by blast
  next
    case True
    from Cons.IH [of b] show ?thesis
    proof
      assume "\<exists>a'. all_undefined fns value els b = Some a'"
      with c True show ?thesis by simp
    next
      assume "\<exists>pre f post a' r a''. fns = pre @ f # post \<and> all_undefined pre value els b = Some a' \<and>
        fn_call f value els a' = (r, a'') \<and> r \<noteq> Undefined"
      then obtain pre f post a' r' a'' where
        "fns = pre @ f # post" "all_undefined pre value els b = Some a'"
        "fn_call f value els a' = (r', a'')" "r' \<noteq> Undefined"
        by blast
      with c True have "fn # fns = (fn # pre) @ f # post \<and>
          all_undefined (fn # pre) value els a = Some a' \<and>
          fn_call f value els a' = (r', a'') \<and> r' \<noteq> Undefined"
        by simp
      then show ?thesis by blast
    qed
  qed
qed

text \<open>
  C6. The getter that \<^verbatim>\<open>Enum\<close> builds holds the compiled alternatives in authoring
  order. Called, it returns the result of the first alternative whose result is not
  \<^verbatim>\<open>undefined\<close>, every alternative before it having been called, in order, and having
  answered \<^verbatim>\<open>undefined\<close>; no later alternative is called. A result such as \<^verbatim>\<open>false\<close>,
  \<^verbatim>\<open>0\<close> or the empty string is defined and wins. If all alternatives answer
  \<^verbatim>\<open>undefined\<close>, so does the getter. One of the two cases always applies.
\<close>

theorem Enum_first_defined:
  assumes "Enum h schemata = Inr g"
  shows "\<exists>fns. map (compile h) schemata = map Inr fns \<and>
    (\<forall>value els a.
       (\<forall>pre fn post a' r a''.
          fns = pre @ fn # post \<and> all_undefined pre value els a = Some a' \<and>
          fn_call fn value els a' = (r, a'') \<and> r \<noteq> Undefined \<longrightarrow>
          fn_call g value els a = (r, a'')) \<and>
       (\<forall>a'. all_undefined fns value els a = Some a' \<longrightarrow> fn_call g value els a = (Undefined, a')) \<and>
       ((\<exists>a'. all_undefined fns value els a = Some a') \<or>
        (\<exists>pre fn post a' r a''. fns = pre @ fn # post \<and> all_undefined pre value els a = Some a' \<and>
           fn_call fn value els a' = (r, a'') \<and> r \<noteq> Undefined)))"
proof -
  from assms obtain fns where fns: "compile_all h schemata = Inr fns"
    and g: "g = \<lparr>fn_length = 2, fn_call = Enum_call fns\<rparr>"
    by (auto simp: Enum_def split: sum.splits)
  have m: "map (compile h) schemata = map Inr fns" using fns by (rule compile_all_map)
  have c: "fn_call g = Enum_call fns" using g by simp
  show ?thesis
  proof (intro exI [of _ fns] conjI allI impI)
    show "map (compile h) schemata = map Inr fns" by (rule m)
  next
    fix v els a pre fn post a' r a''
    assume "fns = pre @ fn # post \<and> all_undefined pre v els a = Some a' \<and>
          fn_call fn v els a' = (r, a'') \<and> r \<noteq> Undefined"
    then show "fn_call g v els a = (r, a'')"
      by (simp add: c Enum_call_first)
  next
    fix v els a a'
    assume "all_undefined fns v els a = Some a'"
    then show "fn_call g v els a = (Undefined, a')"
      by (simp add: c Enum_call_none)
  next
    fix v els a
    show "(\<exists>a'. all_undefined fns v els a = Some a') \<or>
        (\<exists>pre fn post a' r a''. fns = pre @ fn # post \<and> all_undefined pre v els a = Some a' \<and>
           fn_call fn v els a' = (r, a'') \<and> r \<noteq> Undefined)"
      by (rule Enum_call_cases)
  qed
qed

theorem Enum_first_defined_witness:
  "\<exists>g. Enum example_host [StringCtor, BooleanCtor, ObjectCtor] = Inr g \<and>
     fn_call g (Some ''test'') [] 0 = (Str ''test'', 0) \<and>
     fn_call g None [JSONElement Null] 0 = (Bool False, 0)"
proof -
  let ?s = "\<lparr>fn_length = 1, fn_call = (\<lambda>value els a. (string value, a))\<rparr>"
  let ?b = "\<lparr>fn_length = 1, fn_call = (\<lambda>value els a. (boolean value, a))\<rparr>"
  let ?o = "\<lparr>fn_length = 2, fn_call = (\<lambda>value els a. (object els, a))\<rparr>"
  have c: "compile example_host StringCtor = Inr ?s" "compile example_host BooleanCtor = Inr ?b"
    "compile example_host ObjectCtor = Inr ?o"
    by (simp_all add: compile_def isLiteralSchema_def LITERAL_TYPES_def)
  obtain g where g: "Enum example_host [StringCtor, BooleanCtor, ObjectCtor] = Inr g"
    by (simp add: Enum_def c)
  from Enum_first_defined [OF g] obtain fns where
    fns: "map (compile example_host) [StringCtor, BooleanCtor, ObjectCtor] = map Inr fns"
    and every: "\<forall>value els a.
       (\<forall>pre fn post a' r a''.
          fns = pre @ fn # post \<and> all_undefined pre value els a = Some a' \<and>
          fn_call fn value els a' = (r, a'') \<and> r \<noteq> Undefined \<longrightarrow>
          fn_call g value els a = (r, a'')) \<and>
       (\<forall>a'. all_undefined fns value els a = Some a' \<longrightarrow> fn_call g value els a = (Undefined, a')) \<and>
       ((\<exists>a'. all_undefined fns value els a = Some a') \<or>
        (\<exists>pre fn post a' r a''. fns = pre @ fn # post \<and> all_undefined pre value els a = Some a' \<and>
           fn_call fn value els a' = (r, a'') \<and> r \<noteq> Undefined))"
    by (elim exE conjE)
  note first = every [THEN spec, THEN spec, THEN spec, THEN conjunct1, rule_format]
  from fns have f: "fns = [?s, ?b, ?o]"
    by (simp add: c map_eq_Cons_conv) blast
  have "fn_call g (Some ''test'') [] 0 = (Str ''test'', 0)"
    by (rule first [where pre = "[]" and fn = ?s and post = "[?b, ?o]" and a' = 0])
      (simp add: f string_def)
  moreover have "fn_call g None [JSONElement Null] 0 = (Bool False, 0)"
    by (rule first [where pre = "[?s]" and fn = ?b and post = "[?o]" and a' = 0])
      (simp add: f string_def boolean_def)
  ultimately show ?thesis using g by blast
qed

subsection \<open>Key order of objects\<close>

lemma own_key_order_prefix: "own_key_order (xs @ ys) \<Longrightarrow> own_key_order xs"
  by (auto simp: own_key_order_def sorted_wrt_append)

lemma own_key_order_drop: "own_key_order (xs @ y # ys) \<Longrightarrow> own_key_order (xs @ ys)"
  by (auto simp: own_key_order_def sorted_wrt_append)

lemma own_key_order_snoc: "own_key_order (xs @ y # ys) \<Longrightarrow> own_key_order (xs @ [y])"
  by (auto simp: own_key_order_def sorted_wrt_append)

lemma insert_index_last:
  "\<forall>e \<in> set es. \<exists>j. integer_index (fst e) = Some j \<and> j < i \<Longrightarrow>
   insert_index i kv es = es @ [kv]"
  by (induction es) auto

lemma obj_set_append:
  assumes "own_key_order (map fst kvs @ [k])"
  shows "obj_set kvs k v = kvs @ [(k, v)]"
proof -
  from assms have new: "k \<notin> set (map fst kvs)" "k \<noteq> ''__proto__''"
    and before: "\<forall>x \<in> set (map fst kvs). key_before x k"
    by (auto simp: own_key_order_def sorted_wrt_append)
  show ?thesis
  proof (cases "integer_index k")
    case None
    with new show ?thesis by (simp add: obj_set_def)
  next
    case (Some i)
    have "\<forall>e \<in> set kvs. \<exists>j. integer_index (fst e) = Some j \<and> j < i"
    proof
      fix e assume "e \<in> set kvs"
      with before have "key_before (fst e) k" by simp
      with Some show "\<exists>j. integer_index (fst e) = Some j \<and> j < i"
        by (auto simp: key_before_def split: option.splits)
    qed
    then have "insert_index i (k, v) kvs = kvs @ [(k, v)]" by (rule insert_index_last)
    with new Some show ?thesis by (simp add: obj_set_def)
  qed
qed

lemma keys_of_filter:
  assumes "distinct (map fst xs)"
  shows "map fst (filter P xs) = filter (\<lambda>k. k \<in> set (map fst (filter P xs))) (map fst xs)"
proof -
  define S where "S = set (map fst (filter P xs))"
  have "filter P xs = filter (\<lambda>e. fst e \<in> S) xs"
  proof (intro filter_cong refl)
    fix e assume e: "e \<in> set xs"
    show "P e = (fst e \<in> S)"
    proof
      assume "P e"
      with e show "fst e \<in> S" unfolding S_def by force
    next
      assume "fst e \<in> S"
      then obtain e' where e': "e' \<in> set xs" "P e'" "fst e' = fst e"
        unfolding S_def by auto
      with assms e have "e' = e"
        by (metis eq_key_imp_eq_value prod.collapse)
      with e' show "P e" by simp
    qed
  qed
  then have "map fst (filter P xs) = map fst (filter ((\<lambda>k. k \<in> S) \<circ> fst) xs)"
    by (simp only: comp_def)
  also have "\<dots> = filter (\<lambda>k. k \<in> S) (map fst xs)"
    by (simp only: filter_map)
  finally show ?thesis unfolding S_def .
qed

subsection \<open>The constructor\<close>

lemma construct_entries_world:
  "construct_entries h entries this w = Inr (this', w') \<Longrightarrow>
   w' = w\<lparr>compile_calls := compile_calls w + length entries\<rparr>"
proof (induction entries arbitrary: this w)
  case Nil
  then show ?case by simp
next
  case (Cons e entries)
  obtain key val where e: "e = (key, val)" by (cases e)
  from Cons.prems e obtain fn where fn: "compile h val = Inr fn"
    by (auto split: sum.splits)
  let ?w = "w\<lparr>compile_calls := Suc (compile_calls w)\<rparr>"
  from Cons.prems e fn obtain this1 where "construct_entries h entries this1 ?w = Inr (this', w')"
    by (auto simp: Let_def split: if_splits)
  from Cons.IH [OF this] show ?case by simp
qed

lemma construct_entries_returns:
  "compile_all h (map snd entries) = Inr fns \<Longrightarrow>
   \<exists>this' w'. construct_entries h entries this w = Inr (this', w')"
proof (induction entries arbitrary: this w fns)
  case Nil
  show ?case by simp
next
  case (Cons e entries)
  obtain key val where e: "e = (key, val)" by (cases e)
  from Cons.prems e obtain fn fns' where fn: "compile h val = Inr fn"
    and rest: "compile_all h (map snd entries) = Inr fns'"
    by (auto split: sum.splits)
  from Cons.IH [OF rest] e fn show ?case by (auto simp: Let_def)
qed

lemma construct_entries_schema:
  "own_key_order (map fst (hash_schema this) @ map fst entries) \<Longrightarrow>
   construct_entries h entries this w = Inr (this', w') \<Longrightarrow>
   map fst (hash_schema this') = map fst (hash_schema this) @ map fst entries \<and>
   (\<forall>key val. (key, val) \<in> set entries \<longrightarrow>
      (\<exists>fn. compile h val = Inr fn \<and> (key, fn) \<in> set (hash_schema this'))) \<and>
   set (hash_schema this) \<subseteq> set (hash_schema this')"
proof (induction entries arbitrary: this w)
  case Nil
  then show ?case by simp
next
  case (Cons e entries)
  obtain key val where e: "e = (key, val)" by (cases e)
  from Cons.prems(2) e obtain fn where fn: "compile h val = Inr fn"
    by (auto split: sum.splits)
  from Cons.prems(1) e have "own_key_order (map fst (hash_schema this) @ [key])"
    using own_key_order_snoc [of "map fst (hash_schema this)" key "map fst entries"] by simp
  then have set: "obj_set (hash_schema this) key fn = hash_schema this @ [(key, fn)]"
    by (rule obj_set_append)
  let ?w = "w\<lparr>compile_calls := Suc (compile_calls w)\<rparr>"
  let ?t = "this\<lparr>hash_schema := hash_schema this @ [(key, fn)]\<rparr>"
  from Cons.prems(2) e fn set obtain this1 where
    run: "construct_entries h entries this1 ?w = Inr (this', w')"
    and t1: "hash_schema this1 = hash_schema this @ [(key, fn)]"
    by (auto simp: Let_def split: if_splits)
  from Cons.prems(1) e t1 have "own_key_order (map fst (hash_schema this1) @ map fst entries)"
    by simp
  from Cons.IH [OF this run] t1 e fn show ?case by auto
qed

subsection \<open>The order of own properties\<close>

lemma digit_value_digit:
  "c \<in> set ''0123456789'' \<Longrightarrow> digit_char (digit_value c) = c \<and> digit_value c < 10"
  by (auto simp: digit_value_def digit_char_def upt_rec)

lemma digit_value_zero:
  "c \<in> set ''0123456789'' \<Longrightarrow> c \<noteq> CHR ''0'' \<Longrightarrow> 0 < digit_value c"
  by (auto simp: digit_value_def digit_char_def upt_rec)

lemma read_int_snoc: "read_int (s @ [c]) = 10 * read_int s + int (digit_value c)"
  by (simp add: read_int_def)

lemma read_int_nonneg: "0 \<le> read_int s"
  by (induction s rule: rev_induct) (simp_all add: read_int_snoc, simp add: read_int_def)

lemma read_int_pos:
  "s \<noteq> [] \<Longrightarrow> set s \<subseteq> set ''0123456789'' \<Longrightarrow> hd s \<noteq> CHR ''0'' \<Longrightarrow> 0 < read_int s"
proof (induction s rule: rev_induct)
  case Nil
  then show ?case by simp
next
  case (snoc c s)
  show ?case
  proof (cases "s = []")
    case True
    with snoc.prems have "c \<in> set ''0123456789''" "c \<noteq> CHR ''0''" by auto
    from digit_value_zero [OF this] True show ?thesis by (simp add: read_int_def)
  next
    case False
    with snoc have "0 < read_int s" by auto
    then show ?thesis by (simp add: read_int_snoc)
  qed
qed

lemma show_nat_read_int:
  "s \<noteq> [] \<Longrightarrow> set s \<subseteq> set ''0123456789'' \<Longrightarrow> s = ''0'' \<or> hd s \<noteq> CHR ''0'' \<Longrightarrow>
   show_nat (nat (read_int s)) = s"
proof (induction s rule: rev_induct)
  case Nil
  then show ?case by simp
next
  case (snoc c s)
  from snoc.prems have c: "c \<in> set ''0123456789''" by auto
  note dv = digit_value_digit [OF c]
  show ?case
  proof (cases "s = []")
    case True
    with dv show ?thesis by (simp add: read_int_def show_nat.simps)
  next
    case False
    with snoc.prems have s: "set s \<subseteq> set ''0123456789''" "hd s \<noteq> CHR ''0''" by auto
    from snoc.IH [OF False s(1)] s(2) have IH: "show_nat (nat (read_int s)) = s" by simp
    from read_int_pos [OF False s] have pos: "0 < read_int s" .
    define m where "m = nat (read_int s)"
    define d where "d = digit_value c"
    from pos have m: "0 < m" "read_int s = int m" by (simp_all add: m_def)
    have n: "nat (read_int (s @ [c])) = 10 * m + d"
      by (simp add: read_int_snoc m d_def nat_add_distrib nat_mult_distrib)
    from dv have d: "d < 10" by (simp add: d_def)
    with m have "\<not> 10 * m + d < 10" "(10 * m + d) div 10 = m" "(10 * m + d) mod 10 = d" by simp_all
    then have "show_nat (10 * m + d) = show_nat m @ [digit_char d]"
      by (subst show_nat.simps) simp
    with n IH dv show ?thesis by (simp add: m_def d_def)
  qed
qed

lemma integer_index_show_nat: "integer_index k = Some i \<Longrightarrow> k = show_nat i"
proof -
  assume a: "integer_index k = Some i"
  then have k: "k \<noteq> []" "set k \<subseteq> set ''0123456789''" "k = ''0'' \<or> hd k \<noteq> CHR ''0''"
    and i: "i = nat (read_int k)"
    by (auto simp: integer_index_def list_all_iff split: if_splits)
  from show_nat_read_int [OF k] i show ?thesis by simp
qed

lemma integer_index_inj:
  "integer_index a = Some i \<Longrightarrow> integer_index b = Some i \<Longrightarrow> a = b"
  using integer_index_show_nat by blast

lemma index_of_key_inj:
  assumes "integer_index a \<noteq> None" and "integer_index b \<noteq> None"
    and "index_of_key a = index_of_key b"
  shows "a = b"
  using assms integer_index_inj by (auto simp: index_of_key_def)

lemma sort_key_snoc:
  "\<forall>y \<in> set xs. f y \<noteq> f x \<Longrightarrow> sort_key f (xs @ [x]) = insort_key f x (sort_key f xs)"
proof (induction xs)
  case Nil
  show ?case by simp
next
  case (Cons y ys)
  then have "sort_key f (ys @ [x]) = insort_key f x (sort_key f ys)" by simp
  moreover from Cons.prems have "f y \<noteq> f x" by simp
  ultimately show ?case by (simp add: insort_key_left_comm)
qed

lemma insert_index_keys:
  assumes "integer_index k = Some i"
    and "\<forall>e \<in> set es2. integer_index (fst e) = None"
  shows "\<forall>e \<in> set es1. integer_index (fst e) \<noteq> None \<Longrightarrow>
    map fst (insert_index i (k, v) (es1 @ es2)) =
      insort_key index_of_key k (map fst es1) @ map fst es2"
proof (induction es1)
  case Nil
  from assms(2) show ?case by (cases es2) auto
next
  case (Cons e es1)
  then obtain j where j: "integer_index (fst e) = Some j" by auto
  with assms(1) have "index_of_key k = i" "index_of_key (fst e) = j"
    by (simp_all add: index_of_key_def)
  with Cons j show ?case by auto
qed

lemma set_own_property_order: "set (own_property_order ks) = set ks"
  by (auto simp: own_property_order_def)

lemma object_literal_snoc:
  "object_literal (ds @ [(k, v)]) = obj_define (object_literal ds) k v"
  by (simp add: object_literal_def)

lemma object_literal_keys:
  "distinct (map fst ds) \<Longrightarrow> map fst (object_literal ds) = own_property_order (map fst ds)"
proof (induction ds rule: rev_induct)
  case Nil
  show ?case by (simp add: object_literal_def own_property_order_def)
next
  case (snoc d ds)
  obtain k v where d: "d = (k, v)" by (cases d)
  let ?E = "object_literal ds"
  let ?ks = "map fst ds"
  let ?I = "sort_key index_of_key (filter (\<lambda>k. integer_index k \<noteq> None) ?ks)"
  let ?N = "filter (\<lambda>k. integer_index k = None) ?ks"
  from snoc.prems d have dist: "distinct ?ks" and new: "k \<notin> set ?ks" by simp_all
  from snoc.IH [OF dist] have IH: "map fst ?E = ?I @ ?N" by (simp add: own_property_order_def)
  then have "set (map fst ?E) = set ?ks" by auto
  with new have fresh: "k \<notin> set (map fst ?E)" by simp
  show ?case
  proof (cases "integer_index k")
    case None
    with fresh have "obj_define ?E k v = ?E @ [(k, v)]" by (simp add: obj_define_def)
    with IH None d show ?thesis
      by (simp add: object_literal_snoc own_property_order_def)
  next
    case (Some i)
    define es1 where "es1 = take (length ?I) ?E"
    define es2 where "es2 = drop (length ?I) ?E"
    have E: "?E = es1 @ es2" by (simp add: es1_def es2_def)
    from IH have k1: "map fst es1 = ?I" and k2: "map fst es2 = ?N"
      by (simp_all add: es1_def es2_def take_map [symmetric] drop_map [symmetric])
    have a1: "\<forall>e \<in> set es1. integer_index (fst e) \<noteq> None"
    proof
      fix e assume "e \<in> set es1"
      then have "fst e \<in> set (map fst es1)" by simp
      then show "integer_index (fst e) \<noteq> None" unfolding k1 by simp
    qed
    have a2: "\<forall>e \<in> set es2. integer_index (fst e) = None"
    proof
      fix e assume "e \<in> set es2"
      then have "fst e \<in> set (map fst es2)" by simp
      then show "integer_index (fst e) = None" unfolding k2 by simp
    qed
    from insert_index_keys [OF Some a2 a1, of v]
    have ins: "map fst (insert_index i (k, v) ?E) = insort_key index_of_key k ?I @ ?N"
      by (simp add: E [symmetric] k1 k2)
    have "\<forall>y \<in> set (filter (\<lambda>k. integer_index k \<noteq> None) ?ks). index_of_key y \<noteq> index_of_key k"
    proof
      fix y assume y: "y \<in> set (filter (\<lambda>k. integer_index k \<noteq> None) ?ks)"
      with new have "y \<noteq> k" by auto
      moreover from y have "integer_index y \<noteq> None" by simp
      ultimately show "index_of_key y \<noteq> index_of_key k"
        using index_of_key_inj [of y k] Some by auto
    qed
    from sort_key_snoc [OF this]
    have "sort_key index_of_key (filter (\<lambda>k. integer_index k \<noteq> None) ?ks @ [k]) =
        insort_key index_of_key k ?I" .
    with ins fresh Some d show ?thesis
      by (simp add: object_literal_snoc own_property_order_def obj_define_def)
  qed
qed

lemma sorted_own_property_order:
  assumes "distinct ks"
  shows "sorted_wrt key_before (own_property_order ks)"
proof -
  let ?J = "filter (\<lambda>k. integer_index k \<noteq> None) ks"
  let ?I = "sort_key index_of_key ?J"
  let ?N = "filter (\<lambda>k. integer_index k = None) ks"
  have inj: "inj_on index_of_key (set ?I)"
    by (rule inj_onI) (auto intro: index_of_key_inj)
  from assms have "distinct ?I" by simp
  with inj have "distinct (map index_of_key ?I)" by (simp add: distinct_map)
  moreover have "sorted (map index_of_key ?I)" by (rule sorted_sort_key)
  ultimately have "sorted_wrt (<) (map index_of_key ?I)" by (simp add: strict_sorted_iff)
  then have "sorted_wrt (\<lambda>a b. index_of_key a < index_of_key b) ?I"
    by (simp add: sorted_wrt_map)
  then have 1: "sorted_wrt key_before ?I"
  proof (rule sorted_wrt_mono_rel [rotated])
    fix a b assume "a \<in> set ?I" "b \<in> set ?I" "index_of_key a < index_of_key b"
    then show "key_before a b" by (auto simp: key_before_def index_of_key_def)
  qed
  have 2: "sorted_wrt key_before ?N"
    by (induction ks) (auto simp: key_before_def)
  have 3: "\<forall>a \<in> set ?I. \<forall>b \<in> set ?N. key_before a b"
    by (auto simp: key_before_def)
  from 1 2 3 show ?thesis by (simp add: own_property_order_def sorted_wrt_append)
qed

lemma distinct_own_property_order: "distinct ks \<Longrightarrow> distinct (own_property_order ks)"
  by (auto simp: own_property_order_def)

lemma own_key_order_filter:
  "distinct ks \<Longrightarrow> own_key_order (filter (\<lambda>k. k \<noteq> ''__proto__'') (own_property_order ks))"
  using sorted_own_property_order [of ks] distinct_own_property_order [of ks]
  by (simp add: own_key_order_def sorted_wrt_filter)

lemma construct_entries_keys:
  "own_key_order (map fst (hash_schema this) @ filter (\<lambda>k. k \<noteq> ''__proto__'') (map fst entries)) \<Longrightarrow>
   construct_entries h entries this w = Inr (this', w') \<Longrightarrow>
   map fst (hash_schema this') =
     map fst (hash_schema this) @ filter (\<lambda>k. k \<noteq> ''__proto__'') (map fst entries)"
proof (induction entries arbitrary: this w)
  case Nil
  then show ?case by simp
next
  case (Cons e entries)
  obtain key val where e: "e = (key, val)" by (cases e)
  from Cons.prems(2) e obtain fn where fn: "compile h val = Inr fn"
    by (auto split: sum.splits)
  let ?w = "w\<lparr>compile_calls := Suc (compile_calls w)\<rparr>"
  show ?case
  proof (cases "key = ''__proto__''")
    case True
    from Cons.prems(1) have "''__proto__'' \<notin> set (map fst (hash_schema this))"
      by (auto simp: own_key_order_def)
    with True have set: "obj_set (hash_schema this) key fn = hash_schema this"
      by (simp add: obj_set_def)
    from Cons.prems(2) e fn set obtain this1 where
      run: "construct_entries h entries this1 ?w = Inr (this', w')"
      and t1: "hash_schema this1 = hash_schema this"
      by (auto simp: Let_def split: if_splits)
    from Cons.prems(1) e True t1
    have "own_key_order (map fst (hash_schema this1) @
        filter (\<lambda>k. k \<noteq> ''__proto__'') (map fst entries))" by simp
    from Cons.IH [OF this run] t1 e True show ?thesis by simp
  next
    case False
    from Cons.prems(1) e False
    have o: "own_key_order ((map fst (hash_schema this) @ [key]) @
        filter (\<lambda>k. k \<noteq> ''__proto__'') (map fst entries))" by simp
    then have "own_key_order (map fst (hash_schema this) @ [key])"
      by (rule own_key_order_prefix)
    then have set: "obj_set (hash_schema this) key fn = hash_schema this @ [(key, fn)]"
      by (rule obj_set_append)
    from Cons.prems(2) e fn set obtain this1 where
      run: "construct_entries h entries this1 ?w = Inr (this', w')"
      and t1: "hash_schema this1 = hash_schema this @ [(key, fn)]"
      by (auto simp: Let_def split: if_splits)
    from o t1 have "own_key_order (map fst (hash_schema this1) @
        filter (\<lambda>k. k \<noteq> ''__proto__'') (map fst entries))" by simp
    from Cons.IH [OF this run] t1 e False show ?thesis by simp
  qed
qed

lemma constructor_literal_keys:
  assumes "distinct (map fst definitions)"
    and "constructor h (object_literal definitions) w = Inr (this, w')"
  shows "map fst (hash_schema this) =
    filter (\<lambda>k. k \<noteq> ''__proto__'') (own_property_order (map fst definitions))"
proof -
  let ?t = "\<lparr>hash_queued = False, hash_prev = Null, hash_schema = [], slots = []\<rparr>"
  from assms(1) have k: "map fst (object_literal definitions) = own_property_order (map fst definitions)"
    by (rule object_literal_keys)
  from assms(1) have "own_key_order (map fst (hash_schema ?t) @
      filter (\<lambda>k. k \<noteq> ''__proto__'') (map fst (object_literal definitions)))"
    by (simp add: k own_key_order_filter)
  moreover from assms(2) have "construct_entries h (object_literal definitions) ?t w = Inr (this, w')"
    by (simp add: constructor_def)
  ultimately show ?thesis using construct_entries_keys k by fastforce
qed

subsection \<open>The assembled object\<close>

lemma isCompositeSchema_Function: "isCompositeSchema (Function fn) = (2 \<le> fn_length fn)"
  by (simp add: isCompositeSchema_def)

lemma slotted_returns:
  "name = [] \<or> slot_selector h name \<noteq> None \<Longrightarrow> \<exists>els. slotted h this d name = Inr els"
  by (auto simp: slotted_def querySelector_slot_def Let_def)

lemma json_entries_result:
  assumes "own_key_order (map fst props @ map fst entries)" and "selectors_parse h entries"
  shows "\<exists>a'. json_entries h this d entries props a =
           Inr (props @ filter (\<lambda>kv. snd kv \<noteq> Undefined) (getter_values h this d entries a), a') \<and>
         map fst (getter_values h this d entries a) = map fst entries"
  using assms
proof (induction entries arbitrary: props a)
  case Nil
  show ?case by simp
next
  case (Cons e entries)
  obtain key fn where e: "e = (key, fn)" by (cases e)
  from Cons.prems(2) e have rest: "selectors_parse h entries"
    and ok: "isCompositeSchema (Function fn) \<longrightarrow> key = [] \<or> slot_selector h key \<noteq> None"
    by (simp_all add: selectors_parse_def)
  from ok obtain els where
    els: "(if isCompositeSchema (Function fn) then slotted h this d key else Inr []) = Inr els"
    using slotted_returns [of key h this d] by (cases "isCompositeSchema (Function fn)") auto
  obtain val a1 where call: "fn_call fn (getAttribute d key) els a = (val, a1)"
    by (cases "fn_call fn (getAttribute d key) els a")
  have gv: "getter_values h this d (e # entries) a = (key, val) # getter_values h this d entries a1"
    using e els call by simp
  show ?case
  proof (cases "val = Undefined")
    case True
    from Cons.prems(1) e have "own_key_order (map fst props @ map fst entries)"
      using own_key_order_drop [of "map fst props" key "map fst entries"] by simp
    from Cons.IH [OF this rest, of a1] True e els call gv show ?thesis by auto
  next
    case False
    from Cons.prems(1) e have "own_key_order (map fst props @ [key])"
      using own_key_order_snoc [of "map fst props" key "map fst entries"] by simp
    then have set: "obj_set props key val = props @ [(key, val)]" by (rule obj_set_append)
    from Cons.prems(1) e
    have "own_key_order (map fst (props @ [(key, val)]) @ map fst entries)" by simp
    from Cons.IH [OF this rest, of a1] False e els call gv set show ?thesis by auto
  qed
qed

lemma getter_values_member:
  "selectors_parse h entries \<Longrightarrow> (key, fn) \<in> set entries \<Longrightarrow>
   \<exists>els a0. (key, fst (fn_call fn (getAttribute d key) els a0)) \<in> set (getter_values h this d entries a)"
proof (induction entries arbitrary: a)
  case Nil
  then show ?case by simp
next
  case (Cons e entries)
  obtain k f where e: "e = (k, f)" by (cases e)
  from Cons.prems(1) e have rest: "selectors_parse h entries"
    and ok: "isCompositeSchema (Function f) \<longrightarrow> k = [] \<or> slot_selector h k \<noteq> None"
    by (simp_all add: selectors_parse_def)
  from ok obtain els where
    els: "(if isCompositeSchema (Function f) then slotted h this d k else Inr []) = Inr els"
    using slotted_returns [of k h this d] by (cases "isCompositeSchema (Function f)") auto
  obtain val a1 where call: "fn_call f (getAttribute d k) els a = (val, a1)"
    by (cases "fn_call f (getAttribute d k) els a")
  have gv: "getter_values h this d (e # entries) a = (k, val) # getter_values h this d entries a1"
    using e els call by simp
  show ?case
  proof (cases "(key, fn) = e")
    case True
    with e call have "(key, fst (fn_call fn (getAttribute d key) els a)) = (k, val)" by simp
    with gv show ?thesis by (metis list.set_intros(1))
  next
    case False
    with Cons.prems(2) have "(key, fn) \<in> set entries" by simp
    from Cons.IH [OF rest this, of a1] gv show ?thesis by auto
  qed
qed

lemma json_accessor_result:
  assumes "own_key_order (map fst (hash_schema this))" and "selectors_parse h (hash_schema this)"
  shows "\<exists>a'. json_accessor h this d a =
           Inr (Obj a (filter (\<lambda>kv. snd kv \<noteq> Undefined)
                         (getter_values h this d (hash_schema this) (Suc a))), a') \<and>
         map fst (getter_values h this d (hash_schema this) (Suc a)) = map fst (hash_schema this)"
proof -
  from assms(1) have "own_key_order (map fst ([] :: (string \<times> jsval) list) @ map fst (hash_schema this))"
    by simp
  from json_entries_result [OF this assms(2), of this d "Suc a"]
  show ?thesis by (auto simp: json_accessor_def)
qed

lemma constructor_schema:
  assumes "constructor h class_schema w = Inr (this, w')" and "own_key_order (map fst class_schema)"
  shows "map fst (hash_schema this) = map fst class_schema"
    and "(key, val) \<in> set class_schema \<Longrightarrow>
         \<exists>fn. compile h val = Inr fn \<and> (key, fn) \<in> set (hash_schema this)"
proof -
  let ?t = "\<lparr>hash_queued = False, hash_prev = Null, hash_schema = [], slots = []\<rparr>"
  from assms have "construct_entries h class_schema ?t w = Inr (this, w')"
    and "own_key_order (map fst (hash_schema ?t) @ map fst class_schema)"
    by (simp_all add: constructor_def)
  from construct_entries_schema [OF this(2) this(1)]
  show "map fst (hash_schema this) = map fst class_schema"
    and "(key, val) \<in> set class_schema \<Longrightarrow>
         \<exists>fn. compile h val = Inr fn \<and> (key, fn) \<in> set (hash_schema this)"
    by auto
qed

lemma example_indices:
  "integer_index ''1'' = Some 1" "integer_index ''b'' = None" "integer_index ''a'' = None"
  "integer_index ''s'' = None" "integer_index ''items'' = None"
  "integer_index ''__proto__'' = None"
  by code_simp+

lemma example_literal:
  "object_literal [(''b'', StringCtor), (''__proto__'', StringCtor), (''1'', NumberCtor),
      (''s'', StringCtor), (''items'', ArrayCtor)] =
    [(''1'', NumberCtor), (''b'', StringCtor), (''__proto__'', StringCtor), (''s'', StringCtor),
     (''items'', ArrayCtor)]"
  "own_property_order (map fst [(''b'', StringCtor), (''__proto__'', StringCtor), (''1'', NumberCtor),
      (''s'', StringCtor), (''items'', ArrayCtor)]) =
    [''1'', ''b'', ''__proto__'', ''s'', ''items'']"
  by (simp_all add: object_literal_def obj_define_def own_property_order_def example_indices
      index_of_key_def)

lemma example_literal_constructor:
  "constructor example_host
     [(''1'', NumberCtor), (''b'', StringCtor), (''__proto__'', StringCtor), (''s'', StringCtor),
      (''items'', ArrayCtor)]
     \<lparr>heap_next = 0, microtasks = [], dispatched = [], compile_calls = 0\<rparr> =
   Inr (\<lparr>hash_queued = False, hash_prev = Null,
          hash_schema =
            [(''1'', \<lparr>fn_length = 1, fn_call = (\<lambda>value els a. (number example_host value, a))\<rparr>),
             (''b'', \<lparr>fn_length = 1, fn_call = (\<lambda>value els a. (string value, a))\<rparr>),
             (''s'', \<lparr>fn_length = 1, fn_call = (\<lambda>value els a. (string value, a))\<rparr>),
             (''items'', \<lparr>fn_length = 2, fn_call = (\<lambda>value els a. array els a)\<rparr>)],
          slots = [''items'']\<rparr>,
        \<lparr>heap_next = 0, microtasks = [], dispatched = [], compile_calls = 5\<rparr>)"
  by (simp add: constructor_def compile_def isLiteralSchema_def LITERAL_TYPES_def
      isCompositeSchema_def obj_set_def example_indices)

text \<open>
  C7, as the code has it. Take a class whose schema is declared with pairwise different
  keys, an instance of it, and any state of the document in which the accessor's selectors
  parse. The \<^verbatim>\<open>json\<close> accessor returns an object whose entries are exactly the pairs of
  a key and the value its getter returned, for the getters that returned something other
  than \<^verbatim>\<open>undefined\<close>. The getters called are those of the declared keys other than
  \<^verbatim>\<open>__proto__\<close>, each once. The keys of the object do not stand in the order of the
  declaration but in JavaScript's order of own properties: the declared keys that are array
  indices first, in ascending numeric order, then the other declared keys in the order of
  their declaration. The attributes are read by name, so their order in the markup plays
  no part.
\<close>

theorem json_keys_follow_schema:
  assumes "distinct (map fst definitions)"
    and "constructor h (object_literal definitions) w = Inr (this, w')"
    and "selectors_parse h (hash_schema this)"
  shows "\<exists>props a'.
    json_accessor h this d a = Inr (Obj a props, a') \<and>
    props = filter (\<lambda>kv. snd kv \<noteq> Undefined) (getter_values h this d (hash_schema this) (Suc a)) \<and>
    map fst (getter_values h this d (hash_schema this) (Suc a)) =
      filter (\<lambda>k. k \<noteq> ''__proto__'') (own_property_order (map fst definitions)) \<and>
    map fst props =
      filter (\<lambda>k. k \<in> set (map fst props)) (own_property_order (map fst definitions))"
proof -
  let ?gv = "getter_values h this d (hash_schema this) (Suc a)"
  let ?props = "filter (\<lambda>kv. snd kv \<noteq> Undefined) ?gv"
  let ?O = "own_property_order (map fst definitions)"
  from constructor_literal_keys [OF assms(1,2)]
  have s: "map fst (hash_schema this) = filter (\<lambda>k. k \<noteq> ''__proto__'') ?O" .
  with assms(1) have o: "own_key_order (map fst (hash_schema this))"
    by (simp add: own_key_order_filter)
  from json_accessor_result [OF o assms(3), of d a] obtain a' where
    j: "json_accessor h this d a = Inr (Obj a ?props, a')"
    and g: "map fst ?gv = map fst (hash_schema this)"
    by blast
  from g o have "distinct (map fst ?gv)" by (simp add: own_key_order_def)
  then have k: "map fst ?props = filter (\<lambda>k. k \<in> set (map fst ?props)) (map fst ?gv)"
    by (rule keys_of_filter)
  have gs: "map fst ?gv = filter (\<lambda>k. k \<noteq> ''__proto__'') ?O" using g s by simp
  have sub: "set (map fst ?props) \<subseteq> set (map fst ?gv)" by auto
  have e: "filter (\<lambda>k. k \<in> set (map fst ?props)) (filter (\<lambda>k. k \<noteq> ''__proto__'') ?O) =
      filter (\<lambda>k. k \<in> set (map fst ?props)) ?O"
  proof -
    have "\<And>k. k \<in> set (map fst ?props) \<Longrightarrow> k \<noteq> ''__proto__''"
      using sub unfolding gs by auto
    then show ?thesis by (auto simp: filter_filter intro: filter_cong)
  qed
  have "map fst ?props =
      filter (\<lambda>k. k \<in> set (map fst ?props)) (filter (\<lambda>k. k \<noteq> ''__proto__'') ?O)"
    using k unfolding gs .
  then have "map fst ?props = filter (\<lambda>k. k \<in> set (map fst ?props)) ?O"
    by (simp only: e)
  with j gs show ?thesis by blast
qed

theorem json_keys_follow_schema_witness:
  "distinct (map fst [(''b'', StringCtor), (''__proto__'', StringCtor), (''1'', NumberCtor),
      (''s'', StringCtor), (''items'', ArrayCtor)]) \<and>
   constructor example_host
     (object_literal [(''b'', StringCtor), (''__proto__'', StringCtor), (''1'', NumberCtor),
        (''s'', StringCtor), (''items'', ArrayCtor)])
     \<lparr>heap_next = 0, microtasks = [], dispatched = [], compile_calls = 0\<rparr> =
   Inr (\<lparr>hash_queued = False, hash_prev = Null,
          hash_schema =
            [(''1'', \<lparr>fn_length = 1, fn_call = (\<lambda>value els a. (number example_host value, a))\<rparr>),
             (''b'', \<lparr>fn_length = 1, fn_call = (\<lambda>value els a. (string value, a))\<rparr>),
             (''s'', \<lparr>fn_length = 1, fn_call = (\<lambda>value els a. (string value, a))\<rparr>),
             (''items'', \<lparr>fn_length = 2, fn_call = (\<lambda>value els a. array els a)\<rparr>)],
          slots = [''items'']\<rparr>,
        \<lparr>heap_next = 0, microtasks = [], dispatched = [], compile_calls = 5\<rparr>) \<and>
   selectors_parse example_host
     [(''1'', \<lparr>fn_length = 1, fn_call = (\<lambda>value els a. (number example_host value, a))\<rparr>),
      (''b'', \<lparr>fn_length = 1, fn_call = (\<lambda>value els a. (string value, a))\<rparr>),
      (''s'', \<lparr>fn_length = 1, fn_call = (\<lambda>value els a. (string value, a))\<rparr>),
      (''items'', \<lparr>fn_length = 2, fn_call = (\<lambda>value els a. array els a)\<rparr>)] \<and>
   own_property_order (map fst [(''b'', StringCtor), (''__proto__'', StringCtor), (''1'', NumberCtor),
      (''s'', StringCtor), (''items'', ArrayCtor)]) =
     [''1'', ''b'', ''__proto__'', ''s'', ''items''] \<and>
   json_accessor example_host
     \<lparr>hash_queued = False, hash_prev = Null,
        hash_schema =
          [(''1'', \<lparr>fn_length = 1, fn_call = (\<lambda>value els a. (number example_host value, a))\<rparr>),
           (''b'', \<lparr>fn_length = 1, fn_call = (\<lambda>value els a. (string value, a))\<rparr>),
           (''s'', \<lparr>fn_length = 1, fn_call = (\<lambda>value els a. (string value, a))\<rparr>),
           (''items'', \<lparr>fn_length = 2, fn_call = (\<lambda>value els a. array els a)\<rparr>)],
        slots = [''items'']\<rparr>
     \<lparr>getAttribute = map_of [(''items'', ''i''), (''b'', ''x''), (''__proto__'', ''p''), (''1'', '''')],
        assignedElements = (\<lambda>s. if s = ''items'' then [JSONElement (Num (Finite 7)), OtherElement] else [])\<rparr>
     0 =
   Inr (Obj 0 [(''1'', Num (Finite 0)), (''b'', Str ''x''), (''items'', Arr 1 [Num (Finite 7)])], 2)"
proof -
  let ?S = "[(''b'', StringCtor), (''__proto__'', StringCtor), (''1'', NumberCtor),
      (''s'', StringCtor), (''items'', ArrayCtor)]"
  let ?sch = "[(''1'', \<lparr>fn_length = 1, fn_call = (\<lambda>value els a. (number example_host value, a))\<rparr>),
      (''b'', \<lparr>fn_length = 1, fn_call = (\<lambda>value els a. (string value, a))\<rparr>),
      (''s'', \<lparr>fn_length = 1, fn_call = (\<lambda>value els a. (string value, a))\<rparr>),
      (''items'', \<lparr>fn_length = 2, fn_call = (\<lambda>value els a. array els a)\<rparr>)]"
  let ?el = "\<lparr>hash_queued = False, hash_prev = Null, hash_schema = ?sch, slots = [''items'']\<rparr>"
  let ?d = "\<lparr>getAttribute = map_of [(''items'', ''i''), (''b'', ''x''), (''__proto__'', ''p''), (''1'', '''')],
      assignedElements = (\<lambda>s. if s = ''items'' then [JSONElement (Num (Finite 7)), OtherElement] else [])\<rparr>"
  have dist: "distinct (map fst ?S)" by simp
  have c: "constructor example_host (object_literal ?S)
      \<lparr>heap_next = 0, microtasks = [], dispatched = [], compile_calls = 0\<rparr> =
    Inr (?el, \<lparr>heap_next = 0, microtasks = [], dispatched = [], compile_calls = 5\<rparr>)"
    by (simp only: example_literal example_literal_constructor)
  have sp: "selectors_parse example_host (hash_schema ?el)"
    by (simp add: selectors_parse_def isCompositeSchema_def example_host_def)
  have gv: "getter_values example_host ?el ?d ?sch (Suc 0) =
      [(''1'', Num (Finite 0)), (''b'', Str ''x''), (''s'', Undefined),
       (''items'', Arr 1 [Num (Finite 7)])]"
    by (simp add: isCompositeSchema_def string_def number_def array_def example_host_def
        Number_of_digits_def read_int_def slotted_def querySelector_slot_def)
  from json_keys_follow_schema [OF dist c sp, of ?d 0] obtain props a' where
    j: "json_accessor example_host ?el ?d 0 = Inr (Obj 0 props, a')"
    and p: "props = filter (\<lambda>kv. snd kv \<noteq> Undefined)
        (getter_values example_host ?el ?d (hash_schema ?el) (Suc 0))"
    by blast
  from p gv have "props = [(''1'', Num (Finite 0)), (''b'', Str ''x''),
      (''items'', Arr 1 [Num (Finite 7)])]" by simp
  moreover from j have "a' = 2"
    by (simp add: json_accessor_def isCompositeSchema_def string_def number_def array_def
        example_host_def Number_of_digits_def read_int_def obj_set_def example_indices
        slotted_def querySelector_slot_def split: sum.splits prod.splits)
  ultimately show ?thesis using dist c sp j example_literal(2) by simp
qed

text \<open>
  The keys do not come in the order in which the schema declares them when it declares an
  array index after another key: a schema declared \<^verbatim>\<open>{ b: String, 1: String }\<close>
  yields the keys \<^verbatim>\<open>1, b\<close>. And a key is missing although its getter returns a value
  when the key is \<^verbatim>\<open>__proto__\<close>: the constructor's assignment to
  \<^verbatim>\<open>this.#schema["__proto__"]\<close> creates no property, so the getter is never called.
\<close>

theorem json_keys_declaration_order_counterexample:
  "constructor example_host (object_literal [(''b'', StringCtor), (''1'', StringCtor)])
     \<lparr>heap_next = 0, microtasks = [], dispatched = [], compile_calls = 0\<rparr> =
   Inr (\<lparr>hash_queued = False, hash_prev = Null,
          hash_schema =
            [(''1'', \<lparr>fn_length = 1, fn_call = (\<lambda>value els a. (string value, a))\<rparr>),
             (''b'', \<lparr>fn_length = 1, fn_call = (\<lambda>value els a. (string value, a))\<rparr>)],
          slots = []\<rparr>,
        \<lparr>heap_next = 0, microtasks = [], dispatched = [], compile_calls = 2\<rparr>) \<and>
   json_accessor example_host
     \<lparr>hash_queued = False, hash_prev = Null,
        hash_schema =
          [(''1'', \<lparr>fn_length = 1, fn_call = (\<lambda>value els a. (string value, a))\<rparr>),
           (''b'', \<lparr>fn_length = 1, fn_call = (\<lambda>value els a. (string value, a))\<rparr>)],
        slots = []\<rparr>
     \<lparr>getAttribute = map_of [(''b'', ''x''), (''1'', ''y'')], assignedElements = (\<lambda>s. [])\<rparr> 0 =
     Inr (Obj 0 [(''1'', Str ''y''), (''b'', Str ''x'')], 1) \<and>
   map fst [(''1'', Str ''y''), (''b'', Str ''x'')] \<noteq>
     map fst [(''b'', StringCtor), (''1'', StringCtor)] \<and>
   constructor example_host (object_literal [(''__proto__'', StringCtor), (''a'', StringCtor)])
     \<lparr>heap_next = 0, microtasks = [], dispatched = [], compile_calls = 0\<rparr> =
   Inr (\<lparr>hash_queued = False, hash_prev = Null,
          hash_schema =
            [(''a'', \<lparr>fn_length = 1, fn_call = (\<lambda>value els a. (string value, a))\<rparr>)],
          slots = []\<rparr>,
        \<lparr>heap_next = 0, microtasks = [], dispatched = [], compile_calls = 2\<rparr>) \<and>
   compile example_host StringCtor =
     Inr \<lparr>fn_length = 1, fn_call = (\<lambda>value els a. (string value, a))\<rparr> \<and>
   string (getAttribute
     \<lparr>getAttribute = map_of [(''__proto__'', ''p''), (''a'', ''z'')], assignedElements = (\<lambda>s. [])\<rparr>
     ''__proto__'') = Str ''p'' \<and>
   json_accessor example_host
     \<lparr>hash_queued = False, hash_prev = Null,
        hash_schema =
          [(''a'', \<lparr>fn_length = 1, fn_call = (\<lambda>value els a. (string value, a))\<rparr>)],
        slots = []\<rparr>
     \<lparr>getAttribute = map_of [(''__proto__'', ''p''), (''a'', ''z'')], assignedElements = (\<lambda>s. [])\<rparr> 0 =
     Inr (Obj 0 [(''a'', Str ''z'')], 1)"
  by (simp add: object_literal_def obj_define_def constructor_def compile_def isLiteralSchema_def
      LITERAL_TYPES_def isCompositeSchema_def obj_set_def example_indices json_accessor_def
      string_def)

lemma example_constructor:
  "constructor example_host [(''string'', StringCtor), (''number'', NumberCtor), (''bool'', BooleanCtor)]
     \<lparr>heap_next = 0, microtasks = [], dispatched = [], compile_calls = 0\<rparr> =
   Inr (\<lparr>hash_queued = False, hash_prev = Null,
          hash_schema =
            [(''string'', \<lparr>fn_length = 1, fn_call = (\<lambda>value els a. (string value, a))\<rparr>),
             (''number'', \<lparr>fn_length = 1, fn_call = (\<lambda>value els a. (number example_host value, a))\<rparr>),
             (''bool'', \<lparr>fn_length = 1, fn_call = (\<lambda>value els a. (boolean value, a))\<rparr>)],
          slots = []\<rparr>,
        \<lparr>heap_next = 0, microtasks = [], dispatched = [], compile_calls = 3\<rparr>)"
  by (simp add: constructor_def compile_def isLiteralSchema_def LITERAL_TYPES_def
      isCompositeSchema_def obj_set_def integer_index_def)

lemma example_key_order: "own_key_order [''string'', ''number'', ''bool'']"
  by (simp add: own_key_order_def key_before_def integer_index_def)

subsection \<open>How often the schema is compiled\<close>

lemma constructor_world:
  "constructor h class_schema w = Inr (this, w') \<Longrightarrow>
   w' = w\<lparr>compile_calls := compile_calls w + length class_schema\<rparr>"
  unfolding constructor_def by (rule construct_entries_world)

lemma constructor_returns:
  "compile_all h (map snd class_schema) = Inr fns \<Longrightarrow>
   \<exists>this w'. constructor h class_schema w = Inr (this, w')"
  unfolding constructor_def by (rule construct_entries_returns)

lemma construct_instances_count:
  "compile_all h (map snd class_schema) = Inr fns \<Longrightarrow>
   \<exists>instances w'. construct_instances h class_schema n w = Inr (instances, w') \<and>
     length instances = n \<and>
     w' = w\<lparr>compile_calls := compile_calls w + n * length class_schema\<rparr>"
proof (induction n arbitrary: w)
  case 0
  show ?case by simp
next
  case (Suc n)
  from constructor_returns [OF Suc.prems, of w] obtain this w1 where
    c: "constructor h class_schema w = Inr (this, w1)" by blast
  from constructor_world [OF c] have w1: "w1 = w\<lparr>compile_calls := compile_calls w + length class_schema\<rparr>" .
  from Suc.IH [OF Suc.prems, of w1] obtain instances w2 where
    r: "construct_instances h class_schema n w1 = Inr (instances, w2)" "length instances = n"
      "w2 = w1\<lparr>compile_calls := compile_calls w1 + n * length class_schema\<rparr>"
    by blast
  from c r w1 show ?case by (simp add: add.assoc add.commute)
qed

lemma compile_calls_queue: "compile_calls (snd (queue st)) = compile_calls (snd st)"
  by (cases st) (simp add: queue_def)

lemma compile_calls_invoke: "compile_calls (snd (invoke c st)) = compile_calls (snd st)"
  by (cases c)
    (auto simp: attributeChangedCallback_def connectedCallback_def handleEvent_def
      compile_calls_queue split: target.splits)

lemma compile_calls_notify:
  "notify h d st = Inr st' \<Longrightarrow> compile_calls (snd st') = compile_calls (snd st)"
  by (cases st)
    (auto simp: notify_def handleEvent_def Let_def split: if_splits sum.splits prod.splits)

lemma compile_calls_run_task: "compile_calls (snd (run_task h d t st)) = compile_calls (snd st)"
  by (auto simp: run_task_def compile_calls_notify split: sum.splits)

lemma compile_calls_drain: "compile_calls (snd (drain h d st)) = compile_calls (snd st)"
proof (induction h d st rule: drain.induct)
  case (1 h d st)
  obtain this w where st: "st = (this, w)" by (cases st)
  show ?case
  proof (cases "microtasks w")
    case Nil
    with st show ?thesis by (simp add: drain.simps [of h d "(this, w)"])
  next
    case (Cons t ts)
    with st "1.IH" [of this w t ts] show ?thesis
      by (simp add: drain.simps [of h d "(this, w)"] compile_calls_run_task)
  qed
qed

text \<open>
  C9, as the code has it. The compiled schema belongs to the instance: the constructor
  calls \<^verbatim>\<open>compile\<close> once for every key of the class schema, so constructing \<open>n\<close>
  instances of a type with \<open>k\<close> keys makes \<open>n * k\<close> calls. After its construction
  an instance keeps what it compiled: no callback and no flush calls \<^verbatim>\<open>compile\<close>.
\<close>

theorem schema_compiled_per_instance:
  assumes "compile_all h (map snd class_schema) = Inr fns"
  shows "(\<exists>instances w'. construct_instances h class_schema n w = Inr (instances, w') \<and>
            length instances = n \<and>
            compile_calls w' = compile_calls w + n * length class_schema) \<and>
         compile_calls (snd (invoke c st)) = compile_calls (snd st) \<and>
         compile_calls (snd (drain h d st)) = compile_calls (snd st)"
proof -
  from construct_instances_count [OF assms, of n w] obtain instances w' where
    "construct_instances h class_schema n w = Inr (instances, w')" "length instances = n"
    "w' = w\<lparr>compile_calls := compile_calls w + n * length class_schema\<rparr>"
    by blast
  then have "\<exists>instances w'. construct_instances h class_schema n w = Inr (instances, w') \<and>
      length instances = n \<and> compile_calls w' = compile_calls w + n * length class_schema"
    by simp
  then show ?thesis by (simp add: compile_calls_invoke compile_calls_drain)
qed

theorem schema_compiled_per_instance_witness:
  "compile_all example_host (map snd [(''string'', StringCtor)]) =
     Inr [\<lparr>fn_length = 1, fn_call = (\<lambda>value els a. (string value, a))\<rparr>] \<and>
   (\<exists>instances w'.
      construct_instances example_host [(''string'', StringCtor)] 3
        \<lparr>heap_next = 0, microtasks = [], dispatched = [], compile_calls = 0\<rparr> = Inr (instances, w') \<and>
      length instances = 3 \<and> compile_calls w' = 3)"
proof -
  have c: "compile_all example_host (map snd [(''string'', StringCtor)]) =
     Inr [\<lparr>fn_length = 1, fn_call = (\<lambda>value els a. (string value, a))\<rparr>]"
    by (simp add: compile_def isLiteralSchema_def LITERAL_TYPES_def)
  from schema_compiled_per_instance [OF c, of 3
      "\<lparr>heap_next = 0, microtasks = [], dispatched = [], compile_calls = 0\<rparr>"] c
  show ?thesis by simp
qed

text \<open>
  Two instances of a type with a one-key schema: \<^verbatim>\<open>compile\<close> has run twice, not once.
\<close>

theorem schema_compiled_once_counterexample:
  "length [(''string'', StringCtor)] = 1 \<and>
   isl (construct_instances example_host [(''string'', StringCtor)] 2
          \<lparr>heap_next = 0, microtasks = [], dispatched = [], compile_calls = 0\<rparr>) = False \<and>
   compile_calls (snd (projr (construct_instances example_host [(''string'', StringCtor)] 2
          \<lparr>heap_next = 0, microtasks = [], dispatched = [], compile_calls = 0\<rparr>))) = 2 \<and>
   compile_calls (snd (projr (construct_instances example_host [(''string'', StringCtor)] 2
          \<lparr>heap_next = 0, microtasks = [], dispatched = [], compile_calls = 0\<rparr>))) \<noteq>
     length [(''string'', StringCtor)]"
  by (simp add: numeral_2_eq_2 constructor_def compile_def isLiteralSchema_def LITERAL_TYPES_def
      isCompositeSchema_def obj_set_def integer_index_def)

subsection \<open>Number attributes\<close>

lemma number_undefined_iff:
  "number h v = Undefined \<longleftrightarrow> v = None \<or> (\<exists>s. v = Some s \<and> Number h s = NaN)"
  by (cases v) (auto simp: number_def Let_def)

text \<open>
  C10. On a host whose \<^verbatim>\<open>Number("")\<close> is 0, as the language defines it, the getter of
  a \<^verbatim>\<open>Number\<close> key maps an attribute that is present with the empty string to the
  number 0. It answers \<^verbatim>\<open>undefined\<close> only for an absent attribute and for a string
  whose conversion is \<^verbatim>\<open>NaN\<close>. So for an instance whose schema has a \<^verbatim>\<open>Number\<close> key,
  if the attribute of that key is the empty string, the assembled object has that key
  with the value 0.
\<close>

theorem number_of_empty_attribute:
  assumes "Number h '''' = Finite 0"
    and "constructor h class_schema w = Inr (this, w')"
    and "own_key_order (map fst class_schema)"
    and "(key, NumberCtor) \<in> set class_schema"
    and "selectors_parse h (hash_schema this)"
    and "getAttribute d key = Some ''''"
  shows "number h (Some '''') = Num (Finite 0) \<and>
    (\<forall>v. number h v = Undefined \<longleftrightarrow> v = None \<or> (\<exists>s. v = Some s \<and> Number h s = NaN)) \<and>
    (\<exists>props a'. json_accessor h this d a = Inr (Obj a props, a') \<and>
       map_of props key = Some (Num (Finite 0)))"
proof -
  have zero: "number h (Some '''') = Num (Finite 0)"
    using assms(1) by (simp add: number_def)
  let ?gv = "getter_values h this d (hash_schema this) (Suc a)"
  let ?props = "filter (\<lambda>kv. snd kv \<noteq> Undefined) ?gv"
  from constructor_schema(1) [OF assms(2,3)]
  have s: "map fst (hash_schema this) = map fst class_schema" .
  with assms(3) have o: "own_key_order (map fst (hash_schema this))" by simp
  from json_accessor_result [OF o assms(5), of d a] obtain a' where
    j: "json_accessor h this d a = Inr (Obj a ?props, a')"
    and g: "map fst ?gv = map fst (hash_schema this)"
    by blast
  from constructor_schema(2) [OF assms(2,3,4)] obtain fn where
    fn: "compile h NumberCtor = Inr fn" "(key, fn) \<in> set (hash_schema this)" by blast
  from fn(1) have call: "fn_call fn = (\<lambda>value els a. (number h value, a))"
    by (auto simp: compile_def isLiteralSchema_def LITERAL_TYPES_def)
  from getter_values_member [OF assms(5) fn(2), of d this "Suc a"] call assms(6) zero
  have "(key, Num (Finite 0)) \<in> set ?gv" by auto
  then have m: "(key, Num (Finite 0)) \<in> set ?props" by simp
  from g s assms(3) have "distinct (map fst ?gv)" by (simp add: own_key_order_def)
  then have dp: "distinct (map fst ?props)" by (rule distinct_map_filter)
  have "map_of ?props key = Some (Num (Finite 0))" by (rule map_of_is_SomeI [OF dp m])
  with j zero number_undefined_iff [of h] show ?thesis by blast
qed

theorem number_of_empty_attribute_witness:
  "Number example_host '''' = Finite 0 \<and>
   constructor example_host [(''string'', StringCtor), (''number'', NumberCtor), (''bool'', BooleanCtor)]
     \<lparr>heap_next = 0, microtasks = [], dispatched = [], compile_calls = 0\<rparr> =
   Inr (\<lparr>hash_queued = False, hash_prev = Null,
          hash_schema =
            [(''string'', \<lparr>fn_length = 1, fn_call = (\<lambda>value els a. (string value, a))\<rparr>),
             (''number'', \<lparr>fn_length = 1, fn_call = (\<lambda>value els a. (number example_host value, a))\<rparr>),
             (''bool'', \<lparr>fn_length = 1, fn_call = (\<lambda>value els a. (boolean value, a))\<rparr>)],
          slots = []\<rparr>,
        \<lparr>heap_next = 0, microtasks = [], dispatched = [], compile_calls = 3\<rparr>) \<and>
   own_key_order (map fst [(''string'', StringCtor), (''number'', NumberCtor), (''bool'', BooleanCtor)]) \<and>
   (''number'', NumberCtor) \<in> set [(''string'', StringCtor), (''number'', NumberCtor), (''bool'', BooleanCtor)] \<and>
   number example_host (Some '''') = Num (Finite 0) \<and>
   number example_host None = Undefined \<and>
   (\<exists>props a'.
      json_accessor example_host
        \<lparr>hash_queued = False, hash_prev = Null,
           hash_schema =
             [(''string'', \<lparr>fn_length = 1, fn_call = (\<lambda>value els a. (string value, a))\<rparr>),
              (''number'', \<lparr>fn_length = 1, fn_call = (\<lambda>value els a. (number example_host value, a))\<rparr>),
              (''bool'', \<lparr>fn_length = 1, fn_call = (\<lambda>value els a. (boolean value, a))\<rparr>)],
           slots = []\<rparr>
        \<lparr>getAttribute = map_of [(''number'', '''')], assignedElements = (\<lambda>s. [])\<rparr> 0 =
        Inr (Obj 0 props, a') \<and>
      map_of props ''number'' = Some (Num (Finite 0)))"
proof -
  let ?S = "[(''string'', StringCtor), (''number'', NumberCtor), (''bool'', BooleanCtor)]"
  let ?sch = "[(''string'', \<lparr>fn_length = 1, fn_call = (\<lambda>value els a. (string value, a))\<rparr>),
      (''number'', \<lparr>fn_length = 1, fn_call = (\<lambda>value els a. (number example_host value, a))\<rparr>),
      (''bool'', \<lparr>fn_length = 1, fn_call = (\<lambda>value els a. (boolean value, a))\<rparr>)]"
  let ?el = "\<lparr>hash_queued = False, hash_prev = Null, hash_schema = ?sch, slots = []\<rparr>"
  let ?d = "\<lparr>getAttribute = map_of [(''number'', '''')], assignedElements = (\<lambda>s. [])\<rparr>"
  have n: "Number example_host '''' = Finite 0"
    by (simp add: example_host_def Number_of_digits_def read_int_def)
  note c = example_constructor
  have o: "own_key_order (map fst ?S)" using example_key_order by simp
  have m: "(''number'', NumberCtor) \<in> set ?S" by simp
  have sp: "selectors_parse example_host (hash_schema ?el)"
    by (simp add: selectors_parse_def isCompositeSchema_def)
  have a: "getAttribute ?d ''number'' = Some ''''" by simp
  from number_of_empty_attribute [OF n c o m sp a, of 0] n c o m show ?thesis
    by (simp add: number_undefined_iff)
qed

subsection \<open>Batching\<close>

lemma invoke_queues: "invoke c st = (if queues c then queue st else st)"
  by (cases c)
    (auto simp: attributeChangedCallback_def connectedCallback_def handleEvent_def
      split: target.splits)

lemma queue_pending:
  assumes "microtasks w = (if hash_queued this then [Notify] else [])"
  shows "queue (this, w) = (this\<lparr>hash_queued := True\<rparr>, w\<lparr>microtasks := [Notify]\<rparr>)"
  using assms by (cases "hash_queued this") (simp_all add: queue_def)

lemma fold_invoke_batch:
  assumes "microtasks w = (if hash_queued this then [Notify] else [])"
  shows "fold invoke cs (this, w) =
    (if list_ex queues cs then (this\<lparr>hash_queued := True\<rparr>, w\<lparr>microtasks := [Notify]\<rparr>)
     else (this, w))"
  using assms
proof (induction cs arbitrary: this w)
  case Nil
  show ?case by simp
next
  case (Cons c cs)
  show ?case
  proof (cases "queues c")
    case False
    then have "invoke c (this, w) = (this, w)" by (simp only: invoke_queues if_False)
    with False Cons show ?thesis by simp
  next
    case True
    let ?t = "this\<lparr>hash_queued := True\<rparr>"
    let ?w = "w\<lparr>microtasks := [Notify]\<rparr>"
    have "microtasks ?w = (if hash_queued ?t then [Notify] else [])" by simp
    from Cons.IH [OF this] have "fold invoke cs (?t, ?w) = (?t, ?w)"
      by (cases "list_ex queues cs") simp_all
    moreover from True have "invoke c (this, w) = (?t, ?w)"
      by (simp only: invoke_queues if_True queue_pending [OF Cons.prems])
    ultimately show ?thesis using True by simp
  qed
qed

lemma slotted_queued: "slotted h (this\<lparr>hash_queued := b\<rparr>) d name = slotted h this d name"
  by (auto simp: slotted_def querySelector_slot_def split: option.splits)

lemma json_entries_queued:
  "json_entries h (this\<lparr>hash_queued := b\<rparr>) d entries props a = json_entries h this d entries props a"
  by (induction entries arbitrary: props a)
    (auto simp: slotted_queued split: sum.splits prod.splits)

lemma json_accessor_queued:
  "json_accessor h (this\<lparr>hash_queued := b\<rparr>) d a = json_accessor h this d a"
  by (simp add: json_accessor_def json_entries_queued)

lemma notify_dispatches:
  assumes "hasAttribute d ''diff'' \<longrightarrow> (\<exists>j a'. json_accessor h this d (heap_next w) = Inr (j, a'))"
  shows "\<exists>this' w' ps. notify h d (this, w) = Inr (this', w') \<and> \<not> hash_queued this' \<and>
    microtasks w' = microtasks w \<and>
    dispatched w' = dispatched w @ [\<lparr>ev_type = ''json-change'', ev_target = This, detail = ps\<rparr>]"
proof (cases "hasAttribute d ''diff''")
  case False
  then show ?thesis by (simp add: notify_def handleEvent_def Let_def)
next
  case True
  with assms obtain j a' where j: "json_accessor h this d (heap_next w) = Inr (j, a')" by blast
  from diff_returns(1) [of "hash_prev this" j "''''"] obtain ps where
    "diff (hash_prev this) j '''' = Inr ps" ..
  with True j show ?thesis by (simp add: notify_def handleEvent_def Let_def)
qed

lemma drain_empty: "microtasks w = [] \<Longrightarrow> drain h d (this, w) = (this, w)"
  by (simp add: drain.simps [of h d "(this, w)"])

lemma drain_one_notification:
  assumes "microtasks w = [Notify]"
    and "hasAttribute d ''diff'' \<longrightarrow> (\<exists>j a'. json_accessor h this d (heap_next w) = Inr (j, a'))"
  shows "\<exists>this' w' ps. drain h d (this, w) = (this', w') \<and> \<not> hash_queued this' \<and>
    microtasks w' = [] \<and>
    dispatched w' = dispatched w @ [\<lparr>ev_type = ''json-change'', ev_target = This, detail = ps\<rparr>]"
proof -
  let ?w = "w\<lparr>microtasks := []\<rparr>"
  from assms(2) have "hasAttribute d ''diff'' \<longrightarrow>
      (\<exists>j a'. json_accessor h this d (heap_next ?w) = Inr (j, a'))" by simp
  from notify_dispatches [OF this] obtain this' w' ps where
    n: "notify h d (this, ?w) = Inr (this', w')" "\<not> hash_queued this'" "microtasks w' = []"
      "dispatched w' = dispatched w @ [\<lparr>ev_type = ''json-change'', ev_target = This, detail = ps\<rparr>]"
    by auto
  from n(1) have "run_task h d Notify (this, ?w) = (this', w')" by (simp add: run_task_def)
  with assms(1) have "drain h d (this, w) = drain h d (this', w')"
    by (simp add: drain.simps [of h d "(this, w)"])
  with n drain_empty [OF n(3), of h d this'] show ?thesis by simp
qed

text \<open>
  What the batching does while the flush returns. Take an instance whose pending flag
  agrees with the microtask queue (a pending notification is the one queued task), a
  document state in which the accessor does not throw when patches are asked for, and any
  sequence of callbacks of which at least one is a change trigger (an attribute change, the
  connection to the document, a slot change, a notification from a descendant). While the
  callbacks run no event is dispatched and, however many triggers there were, exactly one
  task is queued. Draining the queue then dispatches exactly one \<^verbatim>\<open>json-change\<close> event
  and leaves the instance idle.
\<close>

lemma one_notification_when_flush_returns:
  assumes "microtasks w = (if hash_queued this then [Notify] else [])"
    and "list_ex queues cs"
    and "hasAttribute d ''diff'' \<longrightarrow> (\<exists>j a'. json_accessor h this d (heap_next w) = Inr (j, a'))"
  shows "dispatched (snd (fold invoke cs (this, w))) = dispatched w \<and>
    microtasks (snd (fold invoke cs (this, w))) = [Notify] \<and>
    (\<exists>ps. dispatched (snd (drain h d (fold invoke cs (this, w)))) =
        dispatched w @ [\<lparr>ev_type = ''json-change'', ev_target = This, detail = ps\<rparr>]) \<and>
    microtasks (snd (drain h d (fold invoke cs (this, w)))) = [] \<and>
    \<not> hash_queued (fst (drain h d (fold invoke cs (this, w))))"
proof -
  let ?t = "this\<lparr>hash_queued := True\<rparr>"
  let ?w = "w\<lparr>microtasks := [Notify]\<rparr>"
  from fold_invoke_batch [OF assms(1), of cs] assms(2)
  have f: "fold invoke cs (this, w) = (?t, ?w)" by simp
  have m: "microtasks ?w = [Notify]" by simp
  from assms(3) have "hasAttribute d ''diff'' \<longrightarrow>
      (\<exists>j a'. json_accessor h ?t d (heap_next ?w) = Inr (j, a'))"
    by (simp add: json_accessor_queued)
  from drain_one_notification [OF m this] obtain this' w' ps where
    "drain h d (?t, ?w) = (this', w')" "\<not> hash_queued this'" "microtasks w' = []"
    "dispatched w' = dispatched ?w @ [\<lparr>ev_type = ''json-change'', ev_target = This, detail = ps\<rparr>]"
    by blast
  with f show ?thesis by simp
qed

lemma queue_again: "hash_queued this \<Longrightarrow> queue (this, w) = (this, w)"
  by (cases this) (simp add: queue_def)

lemma fold_invoke_queued: "hash_queued this \<Longrightarrow> fold invoke cs (this, w) = (this, w)"
  by (induction cs) (simp_all add: invoke_queues queue_again)

lemma notify_throws:
  assumes "hasAttribute d ''diff''" and "json_accessor h this d (heap_next w) = Inl e"
  shows "notify h d (this, w) = Inl e"
  using assms by (simp add: notify_def)

lemma drain_throwing_task:
  assumes "microtasks w = [Notify]" and "hasAttribute d ''diff''"
    and "json_accessor h this d (heap_next w) = Inl e"
  shows "drain h d (this, w) = (this, w\<lparr>microtasks := []\<rparr>)"
proof -
  let ?w = "w\<lparr>microtasks := []\<rparr>"
  from assms(3) have "json_accessor h this d (heap_next ?w) = Inl e" by simp
  from notify_throws [OF assms(2) this] have "run_task h d Notify (this, ?w) = (this, ?w)"
    by (simp add: run_task_def)
  with assms(1) have "drain h d (this, w) = drain h d (this, ?w)"
    by (simp add: drain.simps [of h d "(this, w)"])
  then show ?thesis by (simp add: drain_empty)
qed

lemma strict_constructor:
  "constructor strict_host [(''a.b'', ObjectCtor)]
     \<lparr>heap_next = 0, microtasks = [], dispatched = [], compile_calls = 0\<rparr> =
   Inr (\<lparr>hash_queued = False, hash_prev = Null,
          hash_schema = [(''a.b'', \<lparr>fn_length = 2, fn_call = (\<lambda>value els a. (object els, a))\<rparr>)],
          slots = [''a.b'']\<rparr>,
        \<lparr>heap_next = 0, microtasks = [], dispatched = [], compile_calls = 1\<rparr>)"
  by (simp add: constructor_def compile_def isLiteralSchema_def LITERAL_TYPES_def
      isCompositeSchema_def obj_set_def integer_index_def)

text \<open>
  C8 fails on the code. \<^verbatim>\<open>#notify\<close> resets \<^verbatim>\<open>#queued\<close> only after it has read
  \<^verbatim>\<open>this.json\<close> and computed the patches. When the \<^verbatim>\<open>diff\<close> attribute is set and the
  accessor throws, the microtask ends before the reset and before the dispatch. The batch
  that scheduled it, however many triggers it had, is answered by no event at all; the flag
  stays set while no task is queued; and from then on \<^verbatim>\<open>#queue\<close> schedules nothing, so
  that no later batch of triggers \<open>cs'\<close> is notified either, in whatever state \<open>d'\<close>
  of the document it is drained, also one in which the accessor would return or the
  \<^verbatim>\<open>diff\<close> attribute is gone. The accessor throws, for one, on a composite key that is
  not a CSS identifier: \<^verbatim>\<open>static schema = { "a.b": Object }\<close> makes \<^verbatim>\<open>#slotted\<close> query
  the selector \<^verbatim>\<open>slot[name=a.b]\<close> (the instance proved next).
\<close>

theorem notifications_stop_after_throw:
  assumes "microtasks w = (if hash_queued this then [Notify] else [])"
    and "list_ex queues cs"
    and "hasAttribute d ''diff''"
    and "json_accessor h this d (heap_next w) = Inl e"
  shows "dispatched (snd (drain h d (fold invoke cs (this, w)))) = dispatched w \<and>
    microtasks (snd (drain h d (fold invoke cs (this, w)))) = [] \<and>
    hash_queued (fst (drain h d (fold invoke cs (this, w)))) \<and>
    microtasks (snd (fold invoke cs' (drain h d (fold invoke cs (this, w))))) = [] \<and>
    dispatched (snd (drain h d' (fold invoke cs' (drain h d (fold invoke cs (this, w)))))) =
      dispatched w"
proof -
  let ?t = "this\<lparr>hash_queued := True\<rparr>"
  let ?w = "w\<lparr>microtasks := [Notify]\<rparr>"
  from fold_invoke_batch [OF assms(1), of cs] assms(2)
  have f: "fold invoke cs (this, w) = (?t, ?w)" by simp
  have m: "microtasks ?w = [Notify]" by simp
  from assms(4) have "json_accessor h ?t d (heap_next ?w) = Inl e"
    by (simp add: json_accessor_queued)
  from drain_throwing_task [OF m assms(3) this]
  have d: "drain h d (?t, ?w) = (?t, w\<lparr>microtasks := []\<rparr>)" by simp
  have q: "hash_queued ?t" by simp
  from fold_invoke_queued [OF q]
  have f': "fold invoke cs' (?t, w\<lparr>microtasks := []\<rparr>) = (?t, w\<lparr>microtasks := []\<rparr>)" .
  have "drain h d' (?t, w\<lparr>microtasks := []\<rparr>) = (?t, w\<lparr>microtasks := []\<rparr>)"
    by (simp add: drain_empty)
  with f d f' show ?thesis by simp
qed

theorem notifications_stop_after_throw_witness:
  "constructor strict_host [(''a.b'', ObjectCtor)]
     \<lparr>heap_next = 0, microtasks = [], dispatched = [], compile_calls = 0\<rparr> =
   Inr (\<lparr>hash_queued = False, hash_prev = Null,
          hash_schema = [(''a.b'', \<lparr>fn_length = 2, fn_call = (\<lambda>value els a. (object els, a))\<rparr>)],
          slots = [''a.b'']\<rparr>,
        \<lparr>heap_next = 0, microtasks = [], dispatched = [], compile_calls = 1\<rparr>) \<and>
   list_ex queues [Connected, AttributeChanged] \<and>
   hasAttribute \<lparr>getAttribute = map_of [(''diff'', '''')], assignedElements = (\<lambda>s. [])\<rparr> ''diff'' \<and>
   json_accessor strict_host
     \<lparr>hash_queued = False, hash_prev = Null,
        hash_schema = [(''a.b'', \<lparr>fn_length = 2, fn_call = (\<lambda>value els a. (object els, a))\<rparr>)],
        slots = [''a.b'']\<rparr>
     \<lparr>getAttribute = map_of [(''diff'', '''')], assignedElements = (\<lambda>s. [])\<rparr> 0 =
     Inl SyntaxError \<and>
   dispatched (snd (drain strict_host
     \<lparr>getAttribute = map_of [(''diff'', '''')], assignedElements = (\<lambda>s. [])\<rparr>
     (fold invoke [Connected, AttributeChanged]
       (\<lparr>hash_queued = False, hash_prev = Null,
           hash_schema = [(''a.b'', \<lparr>fn_length = 2, fn_call = (\<lambda>value els a. (object els, a))\<rparr>)],
           slots = [''a.b'']\<rparr>,
        \<lparr>heap_next = 0, microtasks = [], dispatched = [], compile_calls = 1\<rparr>)))) = [] \<and>
   \<not> hasAttribute \<lparr>getAttribute = (\<lambda>name. None), assignedElements = (\<lambda>s. [])\<rparr> ''diff'' \<and>
   list_ex queues [AttributeChanged,
     HandleEvent \<lparr>ev_type = ''slotchange'', ev_target = This, detail = None\<rparr>] \<and>
   dispatched (snd (drain strict_host
     \<lparr>getAttribute = (\<lambda>name. None), assignedElements = (\<lambda>s. [])\<rparr>
     (fold invoke [AttributeChanged,
         HandleEvent \<lparr>ev_type = ''slotchange'', ev_target = This, detail = None\<rparr>]
       (drain strict_host
         \<lparr>getAttribute = map_of [(''diff'', '''')], assignedElements = (\<lambda>s. [])\<rparr>
         (fold invoke [Connected, AttributeChanged]
           (\<lparr>hash_queued = False, hash_prev = Null,
               hash_schema = [(''a.b'', \<lparr>fn_length = 2, fn_call = (\<lambda>value els a. (object els, a))\<rparr>)],
               slots = [''a.b'']\<rparr>,
            \<lparr>heap_next = 0, microtasks = [], dispatched = [], compile_calls = 1\<rparr>)))))) = []"
proof -
  let ?el = "\<lparr>hash_queued = False, hash_prev = Null,
      hash_schema = [(''a.b'', \<lparr>fn_length = 2, fn_call = (\<lambda>value els a. (object els, a))\<rparr>)],
      slots = [''a.b'']\<rparr>"
  let ?w = "\<lparr>heap_next = 0, microtasks = [], dispatched = [], compile_calls = 1\<rparr>"
  let ?d = "\<lparr>getAttribute = map_of [(''diff'', '''')], assignedElements = (\<lambda>s. [])\<rparr>"
  let ?d' = "\<lparr>getAttribute = (\<lambda>name. None), assignedElements = (\<lambda>s. [])\<rparr>"
  let ?cs = "[Connected, AttributeChanged]"
  let ?cs' = "[AttributeChanged,
      HandleEvent \<lparr>ev_type = ''slotchange'', ev_target = This, detail = None\<rparr>]"
  note c = strict_constructor
  have i: "microtasks ?w = (if hash_queued ?el then [Notify] else [])" by simp
  have q: "list_ex queues ?cs" by simp
  have q': "list_ex queues ?cs'" by simp
  have a: "hasAttribute ?d ''diff''" by (simp add: hasAttribute_def)
  have a': "\<not> hasAttribute ?d' ''diff''" by (simp add: hasAttribute_def)
  have j: "json_accessor strict_host ?el ?d (heap_next ?w) = Inl SyntaxError"
    by (simp add: json_accessor_def isCompositeSchema_def slotted_def querySelector_slot_def
        strict_host_def plain_name_def)
  from notifications_stop_after_throw [OF i q a j, of ?cs' ?d'] c q q' a a' j
  show ?thesis by simp
qed
end
